theory Spec2Isabelle
  imports Complex_Main "HOL-Library.AList" "HOL-Library.Extended_Nat" "HOL-Library.Multiset"
    "HOL-Library.Product_Lexorder"
begin

section \<open>The Battleship solver of battleship.py\<close>

text \<open>
  Cells are pairs of Python integers, placements and boards are Python sets of cells.
  Dictionaries are association lists in insertion order (Python dictionaries keep it),
  read with \<open>map_of\<close> and written with \<open>AList.update\<close>, which overwrites an
  existing key in place and appends a new one.
\<close>

type_synonym cell = "int \<times> int"
type_synonym placement = "cell set"

datatype py_error = ValueError | IndexError | KeyError | TypeError

text \<open>\<open>d[k]\<close> raises KeyError for a missing key.\<close>

definition lookup :: "('k \<times> 'v) list \<Rightarrow> 'k \<Rightarrow> py_error + 'v" where
  "lookup d k = (case map_of d k of None \<Rightarrow> Inl KeyError | Some v \<Rightarrow> Inr v)"

text \<open>\<open>xs[i]\<close> for a Python integer: a negative index counts from the end.\<close>

definition py_index :: "'a list \<Rightarrow> int \<Rightarrow> py_error + 'a" where
  "py_index xs i =
     (if 0 \<le> i \<and> i < int (length xs) then Inr (xs ! nat i)
      else if i < 0 \<and> - int (length xs) \<le> i then Inr (xs ! nat (int (length xs) + i))
      else Inl IndexError)"

text \<open>\<open>int(x)\<close> truncates towards zero.\<close>

definition py_int :: "rat \<Rightarrow> int" where
  "py_int x = (if 0 \<le> x then \<lfloor>x\<rfloor> else \<lceil>x\<rceil>)"

definition py_range :: "int \<Rightarrow> int list" where
  "py_range n = [0..n - 1]"

text \<open>\<open>dict(pairs)\<close>: later pairs overwrite earlier ones with the same key.\<close>

definition py_dict :: "('k \<times> 'v) list \<Rightarrow> ('k \<times> 'v) list" where
  "py_dict kvs = foldl (\<lambda>d (k, v). AList.update k v d) [] kvs"

definition ascii_lowercase :: string where
  "ascii_lowercase = ''abcdefghijklmnopqrstuvwxyz''"

subsection \<open>BattleshipBoard\<close>

record BattleshipBoard =
  dim :: int
  names :: "char list"
  shipLengths :: "(char \<times> int) list"
  possShipsNumDict :: "(char \<times> nat) list"
  possShipsDict :: "(char \<times> placement list) list"

text \<open>
  The two list comprehensions of generateComponentLayouts for one ship of length \<open>n\<close>
  on a board of dimension \<open>d\<close>: first the runs along the first coordinate, then the
  runs along the second.
\<close>

definition layouts :: "int \<Rightarrow> int \<Rightarrow> placement list" where
  "layouts d n =
     (let ship_length = py_range n;
          dim_limit = py_range (d - n + 1);
          dim_range = py_range d
      in concat (map (\<lambda>i. map (\<lambda>j. set (map (\<lambda>temp. (i + temp, j)) ship_length)) dim_range) dim_limit)
       @ concat (map (\<lambda>i. map (\<lambda>j. set (map (\<lambda>temp. (j, i + temp)) ship_length)) dim_range) dim_limit))"

fun gen_loop :: "BattleshipBoard \<Rightarrow> char list \<Rightarrow> py_error + BattleshipBoard" where
  "gen_loop b [] = Inr b"
| "gen_loop b (name # rest) =
     (case lookup (shipLengths b) name of
        Inl e \<Rightarrow> Inl e
      | Inr n \<Rightarrow>
          (let ps = layouts (dim b) n;
               b1 = b\<lparr>possShipsDict := AList.update name ps (possShipsDict b)\<rparr>;
               b2 = b1\<lparr>possShipsNumDict := AList.update name (length ps) (possShipsNumDict b1)\<rparr>
           in gen_loop b2 rest))"

definition generateComponentLayouts :: "BattleshipBoard \<Rightarrow> py_error + BattleshipBoard" where
  "generateComponentLayouts b =
     gen_loop (b\<lparr>possShipsNumDict := [], possShipsDict := []\<rparr>) (names b)"

definition BattleshipBoard_init :: "int \<Rightarrow> int list \<Rightarrow> py_error + BattleshipBoard" where
  "BattleshipBoard_init d ships =
     (let nms = take (length ships) ascii_lowercase
      in generateComponentLayouts
           \<lparr>dim = d, names = nms, shipLengths = py_dict (zip nms ships),
            possShipsNumDict = [], possShipsDict = []\<rparr>)"

subsection \<open>randomBoard: the rejection sampler\<close>

text \<open>
  The values of \<open>random.random()\<close> are an input: a finite tape of rationals, read from
  the left. A run that asks for a value when the tape is empty is still inside its retry
  loop after all the draws the tape provides: that is the outcome \<open>Starved\<close>, which is
  neither a return nor an exception. Every function that draws returns the unread rest
  of the tape. The product \<open>n * random.random()\<close> is taken exactly; the rounding of
  the floating-point product can change which index a value selects, not the range of
  the indices, and every index is selected by some value.
\<close>

datatype 'a run = Returns 'a | Raises py_error | Starved

datatype attempt =
    Success "placement list" "cell set" "rat list"
  | Collision "rat list"
  | Failure py_error
  | NoRandom

text \<open>
  \<open>self.possShipsDict[name][int(self.possShipsNumDict[name]*random.random())]\<close>,
  in Python's evaluation order.
\<close>

definition draw_placement :: "BattleshipBoard \<Rightarrow> char \<Rightarrow> rat list \<Rightarrow> (py_error + placement \<times> rat list) option" where
  "draw_placement b name tape =
     (case lookup (possShipsDict b) name of
        Inl e \<Rightarrow> Some (Inl e)
      | Inr ps \<Rightarrow>
          (case lookup (possShipsNumDict b) name of
             Inl e \<Rightarrow> Some (Inl e)
           | Inr n \<Rightarrow>
               (case tape of
                  [] \<Rightarrow> None
                | r # tape' \<Rightarrow>
                    (case py_index ps (py_int (of_nat n * r)) of
                       Inl e \<Rightarrow> Some (Inl e)
                     | Inr k \<Rightarrow> Some (Inr (k, tape'))))))"

text \<open>The \<open>for name in rest_names\<close> loop of one attempt.\<close>

fun draw_ships :: "BattleshipBoard \<Rightarrow> char list \<Rightarrow> placement list \<Rightarrow> cell set \<Rightarrow> rat list \<Rightarrow> attempt" where
  "draw_ships b [] l t tape = Success l t tape"
| "draw_ships b (name # rest) l t tape =
     (case draw_placement b name tape of
        None \<Rightarrow> NoRandom
      | Some (Inl e) \<Rightarrow> Failure e
      | Some (Inr (k, tape')) \<Rightarrow>
          if k \<inter> t \<noteq> {} then Collision tape'
          else draw_ships b rest (l @ [k]) (t \<union> k) tape')"

text \<open>
  The two branches of randomBoard differ in how an attempt starts: from the placements
  of the ships that have a single candidate left (\<open>Fixed start_l start_t\<close>), or from a
  draw for the first ship (\<open>Free first_name\<close>).
\<close>

datatype start = Fixed "placement list" "cell set" | Free char

definition attempt :: "BattleshipBoard \<Rightarrow> start \<Rightarrow> char list \<Rightarrow> rat list \<Rightarrow> attempt" where
  "attempt b st rest_names tape =
     (case st of
        Fixed start_l start_t \<Rightarrow> draw_ships b rest_names start_l start_t tape
      | Free first_name \<Rightarrow>
          (case draw_placement b first_name tape of
             None \<Rightarrow> NoRandom
           | Some (Inl e) \<Rightarrow> Failure e
           | Some (Inr (t, tape')) \<Rightarrow> draw_ships b rest_names [t] t tape'))"

lemma draw_placement_tape:
  "draw_placement b name tape = Some (Inr (k, tape')) \<Longrightarrow> length tape' < length tape"
  by (auto simp: draw_placement_def split: sum.splits list.splits)

lemma draw_ships_Success_tape:
  "draw_ships b ns l t tape = Success l' t' tape' \<Longrightarrow> length tape' \<le> length tape"
proof (induction ns arbitrary: l t tape)
  case Nil
  then show ?case by simp
next
  case (Cons name rest)
  then show ?case
    by (fastforce split: option.splits sum.splits if_splits dest: draw_placement_tape)
qed

lemma draw_ships_Collision_tape:
  "draw_ships b ns l t tape = Collision tape' \<Longrightarrow> length tape' < length tape"
proof (induction ns arbitrary: l t tape)
  case Nil
  then show ?case by simp
next
  case (Cons name rest)
  then show ?case
    by (fastforce split: option.splits sum.splits if_splits dest: draw_placement_tape)
qed

lemma attempt_Success_tape:
  "attempt b st ns tape = Success l t tape' \<Longrightarrow> length tape' \<le> length tape"
  by (cases st)
     (fastforce simp: attempt_def split: option.splits sum.splits
        dest: draw_placement_tape draw_ships_Success_tape)+

lemma attempt_Collision_tape:
  "attempt b st ns tape = Collision tape' \<Longrightarrow> length tape' < length tape"
  by (cases st)
     (fastforce simp: attempt_def split: option.splits sum.splits
        dest: draw_placement_tape draw_ships_Collision_tape)+

text \<open>
  The loop \<open>while len_r < batch_size: while 1: ...\<close>. \<open>remaining\<close> is
  \<open>batch_size - len_r\<close>. A result holds both the list \<open>l\<close> and the union \<open>t\<close> of a
  successful attempt; the source appends \<open>l if initial else t\<close>, so a caller with
  \<open>initial=True\<close> reads the first component and any other caller the second.
\<close>

function collect :: "BattleshipBoard \<Rightarrow> start \<Rightarrow> char list \<Rightarrow> nat \<Rightarrow> (placement list \<times> cell set) list
    \<Rightarrow> rat list \<Rightarrow> ((placement list \<times> cell set) list \<times> rat list) run" where
  "collect b st rest_names remaining results tape =
     (if remaining = 0 then Returns (results, tape)
      else (case attempt b st rest_names tape of
              Success l t tape' \<Rightarrow> collect b st rest_names (remaining - 1) (results @ [(l, t)]) tape'
            | Collision tape' \<Rightarrow> collect b st rest_names remaining results tape'
            | Failure e \<Rightarrow> Raises e
            | NoRandom \<Rightarrow> Starved))"
  by pat_completeness auto
termination
proof (relation "inv_image (less_than <*lex*> less_than)
                   (\<lambda>(b, st, rest_names, remaining, results, tape). (length tape, remaining))",
       goal_cases)
  case 1
  show ?case by (intro wf_inv_image wf_lex_prod wf_less_than)
next
  case (2 b st rest_names remaining results tape l t tape')
  then show ?case
    using attempt_Success_tape [of b st rest_names tape l t tape'] by auto
next
  case (3 b st rest_names remaining results tape tape')
  then show ?case
    using attempt_Collision_tape [of b st rest_names tape tape'] by auto
qed

declare collect.simps [simp del]

text \<open>
  \<open>[self.possShipsDict[name][0] for name in names if self.possShipsNumDict[name]==1]\<close>
\<close>

fun fixed_placements :: "BattleshipBoard \<Rightarrow> char list \<Rightarrow> py_error + placement list" where
  "fixed_placements b [] = Inr []"
| "fixed_placements b (name # rest) =
     (case lookup (possShipsNumDict b) name of
        Inl e \<Rightarrow> Inl e
      | Inr n \<Rightarrow>
          if n = 1 then
            (case lookup (possShipsDict b) name of
               Inl e \<Rightarrow> Inl e
             | Inr ps \<Rightarrow>
                 (case py_index ps 0 of
                    Inl e \<Rightarrow> Inl e
                  | Inr k \<Rightarrow>
                      (case fixed_placements b rest of
                         Inl e \<Rightarrow> Inl e
                       | Inr ks \<Rightarrow> Inr (k # ks))))
          else fixed_placements b rest)"

text \<open>\<open>[name for name in names if self.possShipsNumDict[name]!=1]\<close>\<close>

fun free_names :: "BattleshipBoard \<Rightarrow> char list \<Rightarrow> py_error + char list" where
  "free_names b [] = Inr []"
| "free_names b (name # rest) =
     (case lookup (possShipsNumDict b) name of
        Inl e \<Rightarrow> Inl e
      | Inr n \<Rightarrow>
          (case free_names b rest of
             Inl e \<Rightarrow> Inl e
           | Inr ns \<Rightarrow> Inr (if n \<noteq> 1 then name # ns else ns)))"

text \<open>\<open>set.union(*sets)\<close>: a TypeError without arguments.\<close>

definition set_union :: "cell set list \<Rightarrow> py_error + cell set" where
  "set_union sets = (case sets of [] \<Rightarrow> Inl TypeError | s # ss \<Rightarrow> Inr (foldl (\<union>) s ss))"

text \<open>
  randomBoard. The argument \<open>names0\<close> is \<open>[]\<close> for \<open>names=None\<close>. Unpacking
  \<open>first_name, *rest_names\<close> from an empty sequence raises ValueError.
\<close>

definition randomBoard :: "BattleshipBoard \<Rightarrow> bool \<Rightarrow> char list \<Rightarrow> int \<Rightarrow> rat list
    \<Rightarrow> ((placement list \<times> cell set) list \<times> rat list) run" where
  "randomBoard b initial names0 batch_size tape =
     (let nms = (if initial \<or> names0 = [] then names b else names0)
      in case nms of
           [] \<Rightarrow> Raises ValueError
         | first_name # rest_names \<Rightarrow>
             (case lookup (possShipsNumDict b) first_name of
                Inl e \<Rightarrow> Raises e
              | Inr n \<Rightarrow>
                  if n = 1 then
                    (case fixed_placements b nms of
                       Inl e \<Rightarrow> Raises e
                     | Inr start_l \<Rightarrow>
                         (case free_names b nms of
                            Inl e \<Rightarrow> Raises e
                          | Inr rest_names' \<Rightarrow>
                              (case set_union start_l of
                                 Inl e \<Rightarrow> Raises e
                               | Inr start_t \<Rightarrow>
                                   collect b (Fixed start_l start_t) rest_names'
                                     (nat batch_size) [] tape)))
                  else collect b (Free first_name) rest_names (nat batch_size) [] tape))"

subsection \<open>BattleshipPlayer\<close>

record ship_status =
  sunk :: bool
  confirmed_pos :: "cell set"
  hit_count :: int

record BattleshipPlayer =
  board :: BattleshipBoard
  enemy_ships :: "placement list"
  enemy_board :: "cell set"
  enemy_ship_statuses :: "(char \<times> ship_status) list"
  n_boards :: int
  hits :: "cell set"
  misses :: "cell set"
  random_boards :: "cell set list"
  name_order :: "char list"
  target_hits :: int
  last_move :: int
  num_hits :: int

text \<open>
  \<open>{name: {'sunk': False, 'confirmed_pos': set(), 'hit_count': 0} for name in names}\<close>
\<close>

definition fresh_statuses :: "char list \<Rightarrow> (char \<times> ship_status) list" where
  "fresh_statuses nms =
     py_dict (map (\<lambda>name. (name, \<lparr>sunk = False, confirmed_pos = {}, hit_count = 0\<rparr>)) nms)"

text \<open>
  \<open>self.board.randomBoard(initial=True)[0]\<close> followed by \<open>set.union(*self.enemy_ships)\<close>,
  shared by the constructor and reset.
\<close>

definition draw_fleet :: "BattleshipBoard \<Rightarrow> rat list \<Rightarrow> ((placement list \<times> cell set) \<times> rat list) run" where
  "draw_fleet b tape =
     (case randomBoard b True [] 1 tape of
        Raises e \<Rightarrow> Raises e
      | Starved \<Rightarrow> Starved
      | Returns (results, tape') \<Rightarrow>
          (case results of
             [] \<Rightarrow> Raises IndexError
           | (l, t) # _ \<Rightarrow>
               (case set_union l of
                  Inl e \<Rightarrow> Raises e
                | Inr u \<Rightarrow> Returns ((l, u), tape'))))"

definition BattleshipPlayer_init :: "int \<Rightarrow> int list \<Rightarrow> int \<Rightarrow> rat list \<Rightarrow> (BattleshipPlayer \<times> rat list) run" where
  "BattleshipPlayer_init d ships boards tape =
     (case BattleshipBoard_init d ships of
        Inl e \<Rightarrow> Raises e
      | Inr b \<Rightarrow>
          (case draw_fleet b tape of
             Raises e \<Rightarrow> Raises e
           | Starved \<Rightarrow> Starved
           | Returns ((l, u), tape') \<Rightarrow>
               Returns
                 (\<lparr>board = b, enemy_ships = l, enemy_board = u,
                   enemy_ship_statuses = fresh_statuses (names b),
                   n_boards = boards, hits = {}, misses = {}, random_boards = [],
                   name_order = names b,
                   target_hits = sum_list (map snd (shipLengths b)),
                   last_move = 0, num_hits = 0\<rparr>, tape')))"

text \<open>
  generate_random_boards: filter the population by the last observation only, sort the
  ship names by their number of candidates (\<open>sorted\<close> is stable, as \<open>sort_key\<close> is),
  refill with fresh draws.
\<close>

definition generate_random_boards :: "BattleshipPlayer \<Rightarrow> rat list \<Rightarrow> (BattleshipPlayer \<times> rat list) run" where
  "generate_random_boards p tape =
     (let p1 = p\<lparr>random_boards :=
                   (if last_move p = 1
                    then filter (\<lambda>b. b \<inter> misses p = {}) (random_boards p)
                    else filter (\<lambda>b. hits p - b = {}) (random_boards p))\<rparr>;
          p2 = p1\<lparr>name_order :=
                    sort_key (\<lambda>x. case map_of (possShipsNumDict (board p1)) x of
                                     Some n \<Rightarrow> enat n | None \<Rightarrow> \<infinity>)
                      (name_order p1)\<rparr>;
          num_b = length (random_boards p2)
      in case randomBoard (board p2) False (name_order p2) (n_boards p2 - int num_b) tape of
           Raises e \<Rightarrow> Raises e
         | Starved \<Rightarrow> Starved
         | Returns (results, tape') \<Rightarrow>
             Returns (p2\<lparr>random_boards := random_boards p2 @ map snd results\<rparr>, tape'))"

text \<open>update_possible_ship_positions: the loop over \<open>self.board.names\<close>.\<close>

definition prune :: "BattleshipPlayer \<Rightarrow> ship_status \<Rightarrow> placement list \<Rightarrow> placement list" where
  "prune p st ps =
     (let necessary = confirmed_pos st
      in if necessary \<noteq> {} then
           (let len_necessity = hit_count st
            in if last_move p = 1
               then filter (\<lambda>conf. conf \<inter> misses p = {}) ps
               else filter (\<lambda>conf. int (card (necessary \<inter> conf)) = len_necessity
                                  \<and> len_necessity = int (card (hits p \<inter> conf))) ps)
         else
           (if last_move p = 1
            then filter (\<lambda>conf. conf \<inter> misses p = {}) ps
            else filter (\<lambda>conf. hits p \<inter> conf = {}) ps))"

fun upsp_loop :: "BattleshipPlayer \<Rightarrow> char list \<Rightarrow> py_error + BattleshipPlayer" where
  "upsp_loop p [] = Inr p"
| "upsp_loop p (name # rest) =
     (case lookup (possShipsDict (board p)) name of
        Inl e \<Rightarrow> Inl e
      | Inr ps \<Rightarrow>
          if length ps = 1 then upsp_loop p rest
          else
            (case lookup (enemy_ship_statuses p) name of
               Inl e \<Rightarrow> Inl e
             | Inr st \<Rightarrow>
                 (let ps' = prune p st ps;
                      b = board p;
                      b1 = b\<lparr>possShipsDict := AList.update name ps' (possShipsDict b)\<rparr>;
                      b2 = b1\<lparr>possShipsNumDict := AList.update name (length ps') (possShipsNumDict b1)\<rparr>
                  in upsp_loop (p\<lparr>board := b2\<rparr>) rest)))"

definition update_possible_ship_positions :: "BattleshipPlayer \<Rightarrow> py_error + BattleshipPlayer" where
  "update_possible_ship_positions p = upsp_loop p (names (board p))"

text \<open>
  The loop \<open>for name, ship in zip(self.board.names, self.enemy_ships)\<close> of
  update_game_state, which stops at the first ship that holds the cell.
\<close>

fun attribute_hit :: "(char \<times> ship_status) list \<Rightarrow> cell \<Rightarrow> (char \<times> placement) list
    \<Rightarrow> py_error + (char \<times> ship_status) list" where
  "attribute_hit sts c [] = Inr sts"
| "attribute_hit sts c ((name, ship) # rest) =
     (if c \<in> ship then
        (case lookup sts name of
           Inl e \<Rightarrow> Inl e
         | Inr st \<Rightarrow>
             (let st1 = st\<lparr>hit_count := hit_count st + 1\<rparr>;
                  st2 = st1\<lparr>confirmed_pos := insert c (confirmed_pos st1)\<rparr>;
                  st3 = (if hit_count st2 = int (card ship) then st2\<lparr>sunk := True\<rparr> else st2)
              in Inr (AList.update name st3 sts)))
      else attribute_hit sts c rest)"

text \<open>update_game_state returns nothing; the model returns the new state.\<close>

definition update_game_state :: "BattleshipPlayer \<Rightarrow> int \<Rightarrow> int \<Rightarrow> py_error + BattleshipPlayer" where
  "update_game_state p x y =
     (let coords = (x, y)
      in if coords \<in> enemy_board p then
           (if (x, y) \<notin> hits p then
              (let p1 = p\<lparr>hits := insert coords (hits p)\<rparr>;
                   p2 = p1\<lparr>num_hits := num_hits p1 + 1\<rparr>;
                   p3 = p2\<lparr>last_move := 2\<rparr>
               in case attribute_hit (enemy_ship_statuses p3) coords
                         (zip (names (board p3)) (enemy_ships p3)) of
                    Inl e \<Rightarrow> Inl e
                  | Inr sts \<Rightarrow> update_possible_ship_positions (p3\<lparr>enemy_ship_statuses := sts\<rparr>))
            else Inr p)
         else if coords \<notin> misses p then
           (let p1 = p\<lparr>last_move := 1\<rparr>;
                p2 = p1\<lparr>misses := insert coords (misses p1)\<rparr>
            in update_possible_ship_positions p2)
         else Inr p)"

definition check_all_sunk :: "BattleshipPlayer \<Rightarrow> bool" where
  "check_all_sunk p = (num_hits p = target_hits p)"

definition reset :: "BattleshipPlayer \<Rightarrow> rat list \<Rightarrow> (BattleshipPlayer \<times> rat list) run" where
  "reset p tape =
     (case generateComponentLayouts (board p) of
        Inl e \<Rightarrow> Raises e
      | Inr b \<Rightarrow>
          (case draw_fleet b tape of
             Raises e \<Rightarrow> Raises e
           | Starved \<Rightarrow> Starved
           | Returns ((l, u), tape') \<Rightarrow>
               Returns
                 (p\<lparr>board := b, enemy_ships := l, enemy_board := u,
                    enemy_ship_statuses := fresh_statuses (names b),
                    last_move := 0, num_hits := 0, hits := {}, misses := {},
                    random_boards := [], name_order := names b\<rparr>, tape')))"

subsection \<open>take_turn\<close>

text \<open>
  \<open>Counter(chain.from_iterable(self.random_boards))\<close> counts the cells in the order in
  which iterating over each board yields them. The iteration order of a Python set is
  that of its hash table; the model takes it as the parameter \<open>iter\<close>, which lists the
  elements of a set. A Counter is a dictionary, so it keeps its keys in the order of
  their first occurrence.
\<close>

definition Counter :: "'a list \<Rightarrow> ('a \<times> nat) list" where
  "Counter xs =
     foldl (\<lambda>c k. AList.update k (case map_of c k of None \<Rightarrow> 1 | Some n \<Rightarrow> n + 1) c) [] xs"

text \<open>
  \<open>most_common(n)\<close> is \<open>heapq.nlargest(n, items, key=count)\<close>, which is
  \<open>sorted(items, key=count, reverse=True)[:n]\<close>: items with equal counts keep their
  order.
\<close>

definition most_common :: "nat \<Rightarrow> ('a \<times> nat) list \<Rightarrow> ('a \<times> nat) list" where
  "most_common n c = take n (sort_key (\<lambda>(k, cnt). - int cnt) c)"

definition select_tile :: "(cell set \<Rightarrow> cell list) \<Rightarrow> cell set \<Rightarrow> cell set list \<Rightarrow> cell option" where
  "select_tile iter hs boards =
     (case List.find (\<lambda>(tile, cnt). tile \<notin> hs)
             (rev (most_common (card hs + 1) (Counter (concat (map iter boards))))) of
        None \<Rightarrow> None
      | Some (tile, cnt) \<Rightarrow> Some tile)"

definition take_turn :: "(cell set \<Rightarrow> cell list) \<Rightarrow> BattleshipPlayer \<Rightarrow> rat list
    \<Rightarrow> (cell option \<times> BattleshipPlayer \<times> rat list) run" where
  "take_turn iter p tape =
     (case generate_random_boards p tape of
        Raises e \<Rightarrow> Raises e
      | Starved \<Rightarrow> Starved
      | Returns (p', tape') \<Rightarrow>
          Returns (select_tile iter (hits p') (random_boards p'), p', tape'))"

subsection \<open>The shell's report of a move (streamlit_app.py)\<close>

text \<open>
  After update_game_state the shell derives its message from the new state: the cell is
  in \<open>hits\<close> or it is not, and check_all_sunk overrides the message.
\<close>

definition feedback_message :: "BattleshipPlayer \<Rightarrow> int \<Rightarrow> int \<Rightarrow> string" where
  "feedback_message p' x y =
     (if check_all_sunk p' then ''Congratulations, you won!''
      else if (x, y) \<in> hits p' then ''Hit!'' else ''Miss!'')"

subsection \<open>Reachable game states\<close>

inductive reachable :: "BattleshipPlayer \<Rightarrow> bool" where
  reach_init: "BattleshipPlayer_init d ships boards tape = Returns (p, tape') \<Longrightarrow> reachable p"
| reach_move: "reachable p \<Longrightarrow> update_game_state p x y = Inr p' \<Longrightarrow> reachable p'"
| reach_generate: "reachable p \<Longrightarrow> generate_random_boards p tape = Returns (p', tape') \<Longrightarrow> reachable p'"
| reach_turn: "reachable p \<Longrightarrow> take_turn iter p tape = Returns (c, p', tape') \<Longrightarrow> reachable p'"
| reach_reset: "reachable p \<Longrightarrow> reset p tape = Returns (p', tape') \<Longrightarrow> reachable p'"

section \<open>Predicates of the specification and invariants of the game\<close>

text \<open>
  A placement of a ship of length \<open>L\<close> on a board of dimension \<open>D\<close>: exactly
  \<open>L\<close> cells inside the grid that form one run along the first or the second coordinate.
\<close>

definition is_placement :: "int \<Rightarrow> int \<Rightarrow> cell set \<Rightarrow> bool" where
  "is_placement D L e \<longleftrightarrow>
     card e = nat L \<and> e \<subseteq> {0..<D} \<times> {0..<D} \<and>
     (\<exists>i j. e = (\<lambda>t. (i + t, j)) ` {0..<L} \<or> e = (\<lambda>t. (j, i + t)) ` {0..<L})"

text \<open>
  The ship names are distinct and are the keys of \<open>shipLengths\<close>, in order; a fresh
  board holds the full enumeration for every ship.
\<close>

definition board_wf :: "BattleshipBoard \<Rightarrow> bool" where
  "board_wf b \<longleftrightarrow> distinct (names b) \<and> map fst (shipLengths b) = names b"

definition fresh_board :: "BattleshipBoard \<Rightarrow> bool" where
  "fresh_board b \<longleftrightarrow>
     board_wf b \<and>
     (\<forall>name\<in>set (names b). \<exists>L. map_of (shipLengths b) name = Some L \<and>
        map_of (possShipsDict b) name = Some (layouts (dim b) L) \<and>
        map_of (possShipsNumDict b) name = Some (length (layouts (dim b) L)))"

text \<open>
  \<open>cand b name k\<close>: the placement \<open>k\<close> is in the candidate list of the ship
  \<open>name\<close>. A list of sets is disjoint when its members are pairwise disjoint.
\<close>

definition cand :: "BattleshipBoard \<Rightarrow> char \<Rightarrow> placement \<Rightarrow> bool" where
  "cand b name k \<longleftrightarrow> (\<exists>ps. map_of (possShipsDict b) name = Some ps \<and> k \<in> set ps)"

abbreviation disjoint_list :: "'a set list \<Rightarrow> bool" where
  "disjoint_list \<equiv> sorted_wrt (\<lambda>a b. a \<inter> b = {})"

text \<open>
  What update_possible_ship_positions stores for one ship, and what the specification
  asks of a surviving candidate: no miss cell, and for a ship with confirmed hits exactly
  \<open>hit_count\<close> cells in common with the confirmed hits and with all hits.
\<close>

definition pruned :: "BattleshipPlayer \<Rightarrow> ship_status \<Rightarrow> placement list \<Rightarrow> placement list" where
  "pruned p st ps = (if length ps = 1 then ps else prune p st ps)"

definition consistent :: "BattleshipPlayer \<Rightarrow> ship_status \<Rightarrow> placement \<Rightarrow> bool" where
  "consistent p st conf \<longleftrightarrow>
     conf \<inter> misses p = {} \<and>
     (confirmed_pos st \<noteq> {} \<longrightarrow>
        int (card (confirmed_pos st \<inter> conf)) = hit_count st \<and>
        int (card (hits p \<inter> conf)) = hit_count st)"

text \<open>
  The invariant of a game: per ship, the dictionaries agree, the secret placement is
  among the candidates, every candidate is consistent and has the cardinality of the
  ship, and the status records the hits on the secret placement.
\<close>

definition ship_ok :: "BattleshipPlayer \<Rightarrow> char \<Rightarrow> placement \<Rightarrow> bool" where
  "ship_ok p name ship \<longleftrightarrow>
     (\<exists>L ps st.
        map_of (shipLengths (board p)) name = Some L \<and>
        map_of (possShipsDict (board p)) name = Some ps \<and>
        map_of (possShipsNumDict (board p)) name = Some (length ps) \<and>
        map_of (enemy_ship_statuses p) name = Some st \<and>
        ship \<in> set ps \<and>
        (\<forall>conf\<in>set ps. finite conf \<and> card conf = nat L \<and> consistent p st conf) \<and>
        confirmed_pos st = hits p \<inter> ship \<and>
        hit_count st = int (card (confirmed_pos st)))"

definition game_inv :: "BattleshipPlayer \<Rightarrow> bool" where
  "game_inv p \<longleftrightarrow>
     board_wf (board p) \<and>
     length (enemy_ships p) = length (names (board p)) \<and>
     disjoint_list (enemy_ships p) \<and>
     enemy_board p = \<Union> (set (enemy_ships p)) \<and>
     (\<forall>i<length (names (board p)). ship_ok p (names (board p) ! i) (enemy_ships p ! i)) \<and>
     hits p \<subseteq> enemy_board p \<and>
     misses p \<inter> enemy_board p = {} \<and>
     num_hits p = int (card (hits p)) \<and>
     target_hits p = sum_list (map snd (shipLengths (board p)))"

text \<open>
  Concrete states of the game on the 2 x 2 board with one ship of length 2, whose secret
  placement is {(0, 0), (1, 0)}, and the 2 x 2 board with two ships of length 1.
\<close>

definition demo_catalog :: "placement list" where
  "demo_catalog = [{(0, 0), (1, 0)}, {(0, 1), (1, 1)}, {(0, 0), (0, 1)}, {(1, 0), (1, 1)}]"

definition demo_board :: "placement list \<Rightarrow> BattleshipBoard" where
  "demo_board ps =
     \<lparr>dim = 2, names = ''a'', shipLengths = [(CHR ''a'', 2)],
      possShipsNumDict = [(CHR ''a'', length ps)], possShipsDict = [(CHR ''a'', ps)]\<rparr>"

definition demo_player :: "placement list \<Rightarrow> cell set \<Rightarrow> cell set \<Rightarrow> cell set list \<Rightarrow> int \<Rightarrow> BattleshipPlayer" where
  "demo_player ps hs ms boards lm =
     \<lparr>board = demo_board ps, enemy_ships = [{(0, 0), (1, 0)}], enemy_board = {(0, 0), (1, 0)},
      enemy_ship_statuses = [(CHR ''a'', \<lparr>sunk = False, confirmed_pos = hs, hit_count = int (card hs)\<rparr>)],
      n_boards = 3, hits = hs, misses = ms, random_boards = boards, name_order = ''a'',
      target_hits = 2, last_move = lm, num_hits = int (card hs)\<rparr>"

definition two_ship_board :: BattleshipBoard where
  "two_ship_board =
     \<lparr>dim = 2, names = ''ab'', shipLengths = [(CHR ''a'', 1), (CHR ''b'', 1)],
      possShipsNumDict = [(CHR ''a'', 8), (CHR ''b'', 8)],
      possShipsDict =
        [(CHR ''a'', [{(0, 0)}, {(0, 1)}, {(1, 0)}, {(1, 1)}, {(0, 0)}, {(1, 0)}, {(0, 1)}, {(1, 1)}]),
         (CHR ''b'', [{(0, 0)}, {(0, 1)}, {(1, 0)}, {(1, 1)}, {(0, 0)}, {(1, 0)}, {(0, 1)}, {(1, 1)}])]\<rparr>"

text \<open>
  The occupancy frequency of a cell in a population, and what is assumed of the order
  in which a finite set is iterated: each element once.
\<close>

definition freq :: "cell set list \<Rightarrow> cell \<Rightarrow> nat" where
  "freq boards c = length (filter (\<lambda>b. c \<in> b) boards)"

definition iter_ok :: "(cell set \<Rightarrow> cell list) \<Rightarrow> bool" where
  "iter_ok iter \<longleftrightarrow> (\<forall>s. finite s \<longrightarrow> set (iter s) = s \<and> distinct (iter s))"

text \<open>
  \<open>secret p name k\<close>: \<open>k\<close> is the secret placement of the ship \<open>name\<close>. A
  candidate board is consistent when it has as many cells as the fleet, contains every hit
  and no miss; a state is synced when its whole population is, and the name order is a
  permutation of the names.
\<close>

definition secret :: "BattleshipPlayer \<Rightarrow> char \<Rightarrow> placement \<Rightarrow> bool" where
  "secret p name k \<longleftrightarrow>
     (\<exists>i<length (names (board p)). names (board p) ! i = name \<and> k = enemy_ships p ! i)"

definition board_ok :: "BattleshipPlayer \<Rightarrow> cell set \<Rightarrow> bool" where
  "board_ok p b \<longleftrightarrow> finite b \<and> card b = card (enemy_board p) \<and> hits p \<subseteq> b \<and> b \<inter> misses p = {}"

definition synced :: "BattleshipPlayer \<Rightarrow> bool" where
  "synced p \<longleftrightarrow>
     mset (name_order p) = mset (names (board p)) \<and>
     (\<forall>b\<in>set (random_boards p). board_ok p b)"

text \<open>
  The states in which the population has been refreshed after every move: the
  constructor, a refresh, a move followed by a refresh, and reset (take_turn leaves the
  state that its call of generate_random_boards leaves).
\<close>

inductive refreshed :: "BattleshipPlayer \<Rightarrow> bool" where
  refreshed_init: "BattleshipPlayer_init d ships boards tape = Returns (p, tape') \<Longrightarrow> refreshed p"
| refreshed_generate: "refreshed p \<Longrightarrow> generate_random_boards p tape = Returns (p', tape') \<Longrightarrow> refreshed p'"
| refreshed_move: "refreshed p \<Longrightarrow> update_game_state p x y = Inr p1 \<Longrightarrow>
     generate_random_boards p1 tape = Returns (p2, tape') \<Longrightarrow> refreshed p2"
| refreshed_reset: "refreshed p \<Longrightarrow> reset p tape = Returns (p', tape') \<Longrightarrow> refreshed p'"

definition demo_sunk :: "cell set list \<Rightarrow> BattleshipPlayer" where
  "demo_sunk boards =
     (demo_player [{(0, 0), (1, 0)}] {(0, 0), (1, 0)} {} boards 2)
       \<lparr>enemy_ship_statuses :=
          [(CHR ''a'', \<lparr>sunk = True, confirmed_pos = {(0, 0), (1, 0)}, hit_count = 2\<rparr>)]\<rparr>"

section \<open>Properties of the model\<close>

subsection \<open>Dictionaries, ranges and the placement catalog\<close>

lemma update_fresh: "k \<notin> fst ` set al \<Longrightarrow> AList.update k v al = al @ [(k, v)]"
  by (induction al) auto

lemma py_dict_foldl:
  "distinct (map fst (acc @ kvs)) \<Longrightarrow>
   foldl (\<lambda>d (k, v). AList.update k v d) acc kvs = acc @ kvs"
proof (induction kvs arbitrary: acc)
  case Nil
  then show ?case by simp
next
  case (Cons kv kvs)
  obtain k v where kv: "kv = (k, v)" by (cases kv)
  from Cons.prems kv have "k \<notin> fst ` set acc" by auto
  then have "AList.update k v acc = acc @ [(k, v)]" by (rule update_fresh)
  moreover from Cons.prems kv have "distinct (map fst ((acc @ [(k, v)]) @ kvs))" by simp
  ultimately show ?case using Cons.IH [of "acc @ [(k, v)]"] kv by simp
qed

lemma py_dict_distinct: "distinct (map fst kvs) \<Longrightarrow> py_dict kvs = kvs"
  using py_dict_foldl [of "[]" kvs] by (simp add: py_dict_def)

lemma length_py_range [simp]: "length (py_range n) = nat n"
  by (simp add: py_range_def)

lemma set_py_range [simp]: "set (py_range n) = {0..<n}"
  by (auto simp: py_range_def)

lemma length_layouts: "length (layouts d n) = 2 * (nat (d - n + 1) * nat d)"
  by (simp add: layouts_def Let_def length_concat o_def sum_list_triv)

lemma set_layouts:
  "set (layouts d n) =
     (\<lambda>(i, j). (\<lambda>t. (i + t, j)) ` {0..<n}) ` ({0..<d - n + 1} \<times> {0..<d})
   \<union> (\<lambda>(i, j). (\<lambda>t. (j, i + t)) ` {0..<n}) ` ({0..<d - n + 1} \<times> {0..<d})"
  by (auto simp: layouts_def Let_def)

lemma card_run1: "card ((\<lambda>t. (i + t, j::int)) ` {0..<n}) = nat n"
  by (subst card_image) (auto simp: inj_on_def)

lemma card_run2: "card ((\<lambda>t. (j::int, i + t)) ` {0..<n}) = nat n"
  by (subst card_image) (auto simp: inj_on_def)

lemma layouts_is_placement: "e \<in> set (layouts d n) \<Longrightarrow> is_placement d n e"
  unfolding set_layouts is_placement_def
  by (auto simp: card_run1 card_run2)

lemma layouts_finite: "e \<in> set (layouts d n) \<Longrightarrow> finite e"
  unfolding set_layouts by auto

lemma layouts_card: "e \<in> set (layouts d n) \<Longrightarrow> card e = nat n"
  using layouts_is_placement [of e d n] by (simp add: is_placement_def)

lemma lookup_Inr [simp]: "lookup d k = Inr v \<longleftrightarrow> map_of d k = Some v"
  by (simp add: lookup_def split: option.splits)

lemma lookup_Inl [simp]: "lookup d k = Inl e \<longleftrightarrow> map_of d k = None \<and> e = KeyError"
  by (auto simp: lookup_def split: option.splits)

lemma gen_loop_props:
  "gen_loop b ns = Inr b' \<Longrightarrow>
   dim b' = dim b \<and> names b' = names b \<and> shipLengths b' = shipLengths b \<and>
   map_of (possShipsDict b') =
     (\<lambda>name. if name \<in> set ns then map_option (layouts (dim b)) (map_of (shipLengths b) name)
              else map_of (possShipsDict b) name) \<and>
   map_of (possShipsNumDict b') =
     (\<lambda>name. if name \<in> set ns
              then map_option (\<lambda>n. length (layouts (dim b) n)) (map_of (shipLengths b) name)
              else map_of (possShipsNumDict b) name)"
proof (induction ns arbitrary: b)
  case Nil
  then show ?case by auto
next
  case (Cons name rest)
  from Cons.prems obtain n where n: "map_of (shipLengths b) name = Some n"
    by (auto split: sum.splits)
  define b2 where "b2 = b\<lparr>possShipsDict := AList.update name (layouts (dim b) n) (possShipsDict b),
                          possShipsNumDict := AList.update name (length (layouts (dim b) n)) (possShipsNumDict b)\<rparr>"
  from Cons.prems n have run: "gen_loop b2 rest = Inr b'"
    by (simp add: b2_def Let_def lookup_def)
  note IH = Cons.IH [OF run]
  have b2: "dim b2 = dim b" "names b2 = names b" "shipLengths b2 = shipLengths b"
    "map_of (possShipsDict b2) = (map_of (possShipsDict b))(name \<mapsto> layouts (dim b) n)"
    "map_of (possShipsNumDict b2) = (map_of (possShipsNumDict b))(name \<mapsto> length (layouts (dim b) n))"
    by (simp_all add: b2_def update_conv')
  show ?case
    using IH n unfolding b2 by (auto simp: fun_eq_iff)
qed

lemma gen_loop_total:
  "set ns \<subseteq> fst ` set (shipLengths b) \<Longrightarrow> \<exists>b'. gen_loop b ns = Inr b'"
proof (induction ns arbitrary: b)
  case Nil
  then show ?case by simp
next
  case (Cons name rest)
  from Cons.prems obtain n where n: "map_of (shipLengths b) name = Some n"
    by (metis domIff dom_map_of_conv_image_fst insert_subset list.simps(15) not_None_eq)
  define b2 where "b2 = b\<lparr>possShipsDict := AList.update name (layouts (dim b) n) (possShipsDict b),
                          possShipsNumDict := AList.update name (length (layouts (dim b) n)) (possShipsNumDict b)\<rparr>"
  have "set rest \<subseteq> fst ` set (shipLengths b2)" using Cons.prems by (simp add: b2_def)
  from Cons.IH [OF this] obtain b' where "gen_loop b2 rest = Inr b'" by blast
  then show ?case using n by (simp add: b2_def Let_def lookup_def)
qed

lemma distinct_ascii_lowercase: "distinct ascii_lowercase"
  by (simp add: ascii_lowercase_def)

lemma board_wf_lookup:
  "board_wf b \<Longrightarrow> name \<in> set (names b) \<Longrightarrow> \<exists>L. map_of (shipLengths b) name = Some L"
  by (metis board_wf_def image_set map_of_eq_None_iff not_None_eq)

lemma generateComponentLayouts_fresh:
  assumes "board_wf b0"
  shows "\<exists>b. generateComponentLayouts b0 = Inr b \<and> fresh_board b \<and> dim b = dim b0 \<and>
             names b = names b0 \<and> shipLengths b = shipLengths b0"
proof -
  let ?b1 = "b0\<lparr>possShipsNumDict := [], possShipsDict := []\<rparr>"
  from assms have "set (map fst (shipLengths b0)) = set (names b0)"
    by (simp add: board_wf_def)
  then have "fst ` set (shipLengths b0) = set (names b0)"
    by (simp only: list.set_map)
  then have "set (names b0) \<subseteq> fst ` set (shipLengths ?b1)"
    by simp
  from gen_loop_total [OF this] obtain b where run: "gen_loop ?b1 (names b0) = Inr b"
    by auto
  from gen_loop_props [OF run] have props:
    "dim b = dim b0" "names b = names b0" "shipLengths b = shipLengths b0"
    "\<And>name. map_of (possShipsDict b) name =
        (if name \<in> set (names b0) then map_option (layouts (dim b0)) (map_of (shipLengths b0) name) else None)"
    "\<And>name. map_of (possShipsNumDict b) name =
        (if name \<in> set (names b0)
         then map_option (\<lambda>n. length (layouts (dim b0) n)) (map_of (shipLengths b0) name) else None)"
    by simp_all
  have "fresh_board b"
    unfolding fresh_board_def
  proof (intro conjI ballI)
    show "board_wf b" using assms props(2,3) by (simp add: board_wf_def)
  next
    fix name assume "name \<in> set (names b)"
    then have mem: "name \<in> set (names b0)" by (simp add: props(2))
    with board_wf_lookup [OF assms] obtain L where "map_of (shipLengths b0) name = Some L" by blast
    then show "\<exists>L. map_of (shipLengths b) name = Some L \<and>
        map_of (possShipsDict b) name = Some (layouts (dim b) L) \<and>
        map_of (possShipsNumDict b) name = Some (length (layouts (dim b) L))"
      using mem by (simp add: props)
  qed
  then show ?thesis using run props(1-3) by (simp add: generateComponentLayouts_def)
qed

lemma BattleshipBoard_init_fresh:
  "\<exists>b. BattleshipBoard_init d ships = Inr b \<and> fresh_board b \<and> dim b = d \<and>
       names b = take (length ships) ascii_lowercase \<and>
       shipLengths b = zip (take (length ships) ascii_lowercase) ships"
proof -
  let ?nms = "take (length ships) ascii_lowercase"
  let ?b0 = "\<lparr>dim = d, names = ?nms, shipLengths = py_dict (zip ?nms ships),
              possShipsNumDict = [], possShipsDict = []\<rparr>"
  have d: "distinct ?nms" using distinct_ascii_lowercase by (rule distinct_take)
  have fst_zip: "map fst (zip ?nms ships) = ?nms"
    by (simp add: map_fst_zip_take min_def)
  then have pd: "py_dict (zip ?nms ships) = zip ?nms ships"
    using d by (intro py_dict_distinct) simp
  have "board_wf ?b0" using d fst_zip by (simp add: board_wf_def pd)
  from generateComponentLayouts_fresh [OF this] show ?thesis
    by (simp add: BattleshipBoard_init_def Let_def pd)
qed

subsection \<open>What a successful attempt of the sampler yields\<close>

lemma py_index_mem: "py_index ps i = Inr k \<Longrightarrow> k \<in> set ps"
  by (auto simp: py_index_def split: if_splits)

lemma py_index_Nil [simp]: "py_index [] i = Inl IndexError"
  by (simp add: py_index_def)

lemma draw_placement_cand:
  "draw_placement b name tape = Some (Inr (k, tape')) \<Longrightarrow> cand b name k"
  by (auto simp: draw_placement_def cand_def lookup_def
      split: option.splits sum.splits list.splits dest: py_index_mem)

lemma draw_ships_Success:
  "draw_ships b ns l0 t0 tape = Success l t tape' \<Longrightarrow>
   \<exists>ks. l = l0 @ ks \<and> list_all2 (cand b) ns ks \<and> t = t0 \<union> \<Union> (set ks) \<and>
        disjoint_list ks \<and> (\<forall>k\<in>set ks. k \<inter> t0 = {})"
proof (induction ns arbitrary: l0 t0 tape)
  case Nil
  then show ?case by simp
next
  case (Cons name rest)
  from Cons.prems obtain k tp where
    draw: "draw_placement b name tape = Some (Inr (k, tp))" and
    disj: "k \<inter> t0 = {}" and
    run: "draw_ships b rest (l0 @ [k]) (t0 \<union> k) tp = Success l t tape'"
    by (auto split: option.splits sum.splits if_splits)
  from Cons.IH [OF run] obtain ks where ks:
    "l = (l0 @ [k]) @ ks" "list_all2 (cand b) rest ks" "t = (t0 \<union> k) \<union> \<Union> (set ks)"
    "disjoint_list ks" "\<forall>k'\<in>set ks. k' \<inter> (t0 \<union> k) = {}"
    by blast
  have "l = l0 @ (k # ks)" using ks(1) by simp
  moreover have "list_all2 (cand b) (name # rest) (k # ks)"
    using ks(2) draw_placement_cand [OF draw] by simp
  moreover have "t = t0 \<union> \<Union> (set (k # ks))" using ks(3) by auto
  moreover have "disjoint_list (k # ks)" using ks(4,5) by auto
  moreover have "\<forall>k'\<in>set (k # ks). k' \<inter> t0 = {}" using ks(5) disj by auto
  ultimately show ?case by blast
qed

lemma attempt_Free_Success:
  assumes "attempt b (Free first_name) rest tape = Success l t tape'"
  shows "list_all2 (cand b) (first_name # rest) l \<and> t = \<Union> (set l) \<and> disjoint_list l"
proof -
  from assms obtain k tp where
    draw: "draw_placement b first_name tape = Some (Inr (k, tp))" and
    run: "draw_ships b rest [k] k tp = Success l t tape'"
    by (auto simp: attempt_def split: option.splits sum.splits)
  from draw_ships_Success [OF run] obtain ks where ks:
    "l = [k] @ ks" "list_all2 (cand b) rest ks" "t = k \<union> \<Union> (set ks)"
    "disjoint_list ks" "\<forall>k'\<in>set ks. k' \<inter> k = {}"
    by blast
  show ?thesis using ks draw_placement_cand [OF draw] by auto
qed

lemma collect_Returns:
  "collect b st rest n acc tape = Returns (results, tape') \<Longrightarrow>
   \<exists>new. results = acc @ new \<and> length new = n \<and>
         (\<forall>(l, t)\<in>set new. \<exists>tp tp'. attempt b st rest tp = Success l t tp')"
proof (induction b st rest n acc tape rule: collect.induct)
  case (1 b st rest_names remaining results0 tape)
  show ?case
  proof (cases "remaining = 0")
    case True
    with "1.prems" show ?thesis by (simp add: collect.simps)
  next
    case False
    show ?thesis
    proof (cases "attempt b st rest_names tape")
      case (Success l t tp)
      with False "1.prems"
      have run: "collect b st rest_names (remaining - 1) (results0 @ [(l, t)]) tp = Returns (results, tape')"
        by (simp add: collect.simps)
      from "1.IH"(1) [OF False Success run] obtain new where new:
        "results = (results0 @ [(l, t)]) @ new" "length new = remaining - 1"
        "\<forall>(l, t)\<in>set new. \<exists>tp tp'. attempt b st rest_names tp = Success l t tp'"
        by blast
      have "results = results0 @ ((l, t) # new)" using new(1) by simp
      moreover have "length ((l, t) # new) = remaining" using new(2) False by simp
      moreover have "\<forall>(l, t)\<in>set ((l, t) # new). \<exists>tp tp'. attempt b st rest_names tp = Success l t tp'"
        using new(3) Success by auto
      ultimately show ?thesis by blast
    next
      case (Collision tp)
      with False "1.prems"
      have run: "collect b st rest_names remaining results0 tp = Returns (results, tape')"
        by (simp add: collect.simps)
      from "1.IH"(2) [OF False Collision run] show ?thesis .
    next
      case (Failure e)
      with False "1.prems" show ?thesis by (simp add: collect.simps)
    next
      case NoRandom
      with False "1.prems" show ?thesis by (simp add: collect.simps)
    qed
  qed
qed

lemma foldl_Un: "foldl (\<union>) s ss = s \<union> \<Union> (set ss)"
  by (induction ss arbitrary: s) auto

lemma set_union_Inr: "set_union l = Inr u \<Longrightarrow> u = \<Union> (set l) \<and> l \<noteq> []"
  by (auto simp: set_union_def foldl_Un split: list.splits)

lemma fresh_count_not_1:
  "fresh_board b \<Longrightarrow> name \<in> set (names b) \<Longrightarrow> map_of (possShipsNumDict b) name = Some n \<Longrightarrow> n \<noteq> 1"
  by (auto simp: fresh_board_def length_layouts dest!: bspec)

lemma draw_fleet_fresh:
  assumes fresh: "fresh_board b" and run: "draw_fleet b tape = Returns ((l, u), tape')"
  shows "list_all2 (cand b) (names b) l \<and> u = \<Union> (set l) \<and> disjoint_list l"
proof -
  from run obtain results t where
    rb: "randomBoard b True [] 1 tape = Returns (results @ [], tape')" and
    hd: "results = (l, t) # tl results" and su: "set_union l = Inr u"
    by (auto simp: draw_fleet_def split: run.splits list.splits sum.splits)
  from rb obtain first_name rest_names where nms: "names b = first_name # rest_names"
    by (auto simp: randomBoard_def Let_def split: list.splits)
  then have "first_name \<in> set (names b)" by simp
  with fresh obtain n where n: "map_of (possShipsNumDict b) first_name = Some n"
    by (auto simp: fresh_board_def)
  with fresh_count_not_1 [OF fresh \<open>first_name \<in> set (names b)\<close>] have "n \<noteq> 1" by simp
  with rb nms n have "collect b (Free first_name) rest_names 1 [] tape = Returns (results, tape')"
    by (simp add: randomBoard_def Let_def lookup_def)
  from collect_Returns [OF this] hd
  obtain tp tp' where "attempt b (Free first_name) rest_names tp = Success l t tp'"
    by (cases results) auto
  from attempt_Free_Success [OF this] set_union_Inr [OF su] nms show ?thesis by simp
qed

lemma map_of_zip_nth_le:
  "distinct xs \<Longrightarrow> i < length xs \<Longrightarrow> i < length ys \<Longrightarrow> map_of (zip xs ys) (xs ! i) = Some (ys ! i)"
proof (induction xs arbitrary: ys i)
  case Nil
  then show ?case by simp
next
  case (Cons x xs)
  then obtain y ys' where ys: "ys = y # ys'" by (cases ys) auto
  show ?case
  proof (cases i)
    case 0
    then show ?thesis by (simp add: ys)
  next
    case (Suc j)
    with Cons.prems ys have "xs ! j \<noteq> x" by auto
    then show ?thesis using Cons.IH [of j ys'] Cons.prems Suc ys by simp
  qed
qed

subsection \<open>Pruning keeps the invariant\<close>

lemma prune_board [simp]: "prune (p\<lparr>board := b\<rparr>) st ps = prune p st ps"
  by (simp add: prune_def Let_def)

lemma pruned_board [simp]: "pruned (p\<lparr>board := b\<rparr>) st ps = pruned p st ps"
  by (simp add: pruned_def)

lemma upsp_loop_props:
  assumes "distinct ns"
    and "\<forall>name\<in>set ns. \<exists>ps st. map_of (possShipsDict (board p)) name = Some ps \<and>
           map_of (possShipsNumDict (board p)) name = Some (length ps) \<and>
           map_of (enemy_ship_statuses p) name = Some st"
  shows "\<exists>b'. upsp_loop p ns = Inr (p\<lparr>board := b'\<rparr>) \<and>
           dim b' = dim (board p) \<and> names b' = names (board p) \<and>
           shipLengths b' = shipLengths (board p) \<and>
           (\<forall>name. name \<notin> set ns \<longrightarrow>
              map_of (possShipsDict b') name = map_of (possShipsDict (board p)) name \<and>
              map_of (possShipsNumDict b') name = map_of (possShipsNumDict (board p)) name) \<and>
           (\<forall>name\<in>set ns. \<forall>ps st.
              map_of (possShipsDict (board p)) name = Some ps \<longrightarrow>
              map_of (enemy_ship_statuses p) name = Some st \<longrightarrow>
              map_of (possShipsDict b') name = Some (pruned p st ps) \<and>
              map_of (possShipsNumDict b') name = Some (length (pruned p st ps)))"
  using assms
proof (induction ns arbitrary: p)
  case Nil
  have "p = p\<lparr>board := board p\<rparr>" by simp
  then show ?case by (intro exI [of _ "board p"]) simp
next
  case (Cons name rest)
  from Cons.prems obtain ps st where look:
    "map_of (possShipsDict (board p)) name = Some ps"
    "map_of (possShipsNumDict (board p)) name = Some (length ps)"
    "map_of (enemy_ship_statuses p) name = Some st"
    by auto
  from Cons.prems have fresh: "name \<notin> set rest" and dist: "distinct rest" by auto
  show ?case
  proof (cases "length ps = 1")
    case True
    have pre: "\<forall>name\<in>set rest. \<exists>ps st. map_of (possShipsDict (board p)) name = Some ps \<and>
           map_of (possShipsNumDict (board p)) name = Some (length ps) \<and>
           map_of (enemy_ship_statuses p) name = Some st"
      using Cons.prems by simp
    from Cons.IH [OF dist pre] obtain b' where b':
      "upsp_loop p rest = Inr (p\<lparr>board := b'\<rparr>)"
      "dim b' = dim (board p)" "names b' = names (board p)"
      "shipLengths b' = shipLengths (board p)"
      "\<And>n. n \<notin> set rest \<Longrightarrow>
              map_of (possShipsDict b') n = map_of (possShipsDict (board p)) n \<and>
              map_of (possShipsNumDict b') n = map_of (possShipsNumDict (board p)) n"
      "\<And>n ps st. n \<in> set rest \<Longrightarrow>
              map_of (possShipsDict (board p)) n = Some ps \<Longrightarrow>
              map_of (enemy_ship_statuses p) n = Some st \<Longrightarrow>
              map_of (possShipsDict b') n = Some (pruned p st ps) \<and>
              map_of (possShipsNumDict b') n = Some (length (pruned p st ps))"
      by blast
    have run: "upsp_loop p (name # rest) = Inr (p\<lparr>board := b'\<rparr>)"
      using look True b'(1) by (simp add: lookup_def)
    have here: "map_of (possShipsDict b') name = Some (pruned p st ps) \<and>
                map_of (possShipsNumDict b') name = Some (length (pruned p st ps))"
      using b'(5) [OF fresh] look True by (simp add: pruned_def)
    show ?thesis
    proof (intro exI [of _ b'] conjI allI ballI impI)
      fix n ps0 st0
      assume "n \<in> set (name # rest)" "map_of (possShipsDict (board p)) n = Some ps0"
        "map_of (enemy_ship_statuses p) n = Some st0"
      then show "map_of (possShipsDict b') n = Some (pruned p st0 ps0)"
        and "map_of (possShipsNumDict b') n = Some (length (pruned p st0 ps0))"
        using here look b'(6) [of n ps0 st0] by auto
    qed (use run b' in auto)
  next
    case False
    define ps' where "ps' = prune p st ps"
    define b2 where "b2 = (board p)\<lparr>possShipsDict := AList.update name ps' (possShipsDict (board p)),
                          possShipsNumDict := AList.update name (length ps') (possShipsNumDict (board p))\<rparr>"
    define p2 where "p2 = p\<lparr>board := b2\<rparr>"
    have b2: "dim b2 = dim (board p)" "names b2 = names (board p)"
      "shipLengths b2 = shipLengths (board p)"
      "map_of (possShipsDict b2) = (map_of (possShipsDict (board p)))(name \<mapsto> ps')"
      "map_of (possShipsNumDict b2) = (map_of (possShipsNumDict (board p)))(name \<mapsto> length ps')"
      by (simp_all add: b2_def update_conv')
    have p2: "board p2 = b2" "enemy_ship_statuses p2 = enemy_ship_statuses p"
      by (simp_all add: p2_def)
    have step: "upsp_loop p (name # rest) = upsp_loop p2 rest"
      using look False by (simp add: lookup_def Let_def p2_def b2_def ps'_def)
    have pre: "\<forall>n\<in>set rest. \<exists>ps st. map_of (possShipsDict (board p2)) n = Some ps \<and>
           map_of (possShipsNumDict (board p2)) n = Some (length ps) \<and>
           map_of (enemy_ship_statuses p2) n = Some st"
      using Cons.prems(2) fresh unfolding p2 b2 by auto
    from Cons.IH [OF dist pre] obtain b' where b':
      "upsp_loop p2 rest = Inr (p2\<lparr>board := b'\<rparr>)"
      "dim b' = dim b2" "names b' = names b2"
      "shipLengths b' = shipLengths b2"
      "\<And>n. n \<notin> set rest \<Longrightarrow>
              map_of (possShipsDict b') n = map_of (possShipsDict b2) n \<and>
              map_of (possShipsNumDict b') n = map_of (possShipsNumDict b2) n"
      "\<And>n ps st. n \<in> set rest \<Longrightarrow>
              map_of (possShipsDict b2) n = Some ps \<Longrightarrow>
              map_of (enemy_ship_statuses p) n = Some st \<Longrightarrow>
              map_of (possShipsDict b') n = Some (pruned p2 st ps) \<and>
              map_of (possShipsNumDict b') n = Some (length (pruned p2 st ps))"
      unfolding p2 by blast
    have run: "upsp_loop p (name # rest) = Inr (p\<lparr>board := b'\<rparr>)"
      using step b'(1) by (simp add: p2_def)
    have here: "map_of (possShipsDict b') name = Some (pruned p st ps) \<and>
                map_of (possShipsNumDict b') name = Some (length (pruned p st ps))"
      using b'(5) [OF fresh] False by (simp add: b2 pruned_def ps'_def)
    show ?thesis
    proof (intro exI [of _ b'] conjI allI ballI impI)
      fix n ps0 st0
      assume n: "n \<in> set (name # rest)" "map_of (possShipsDict (board p)) n = Some ps0"
        "map_of (enemy_ship_statuses p) n = Some st0"
      show "map_of (possShipsDict b') n = Some (pruned p st0 ps0)"
        and "map_of (possShipsNumDict b') n = Some (length (pruned p st0 ps0))"
      proof -
        show "map_of (possShipsDict b') n = Some (pruned p st0 ps0)"
        proof (cases "n = name")
          case True
          then show ?thesis using here look n by simp
        next
          case False
          with n have "n \<in> set rest" "map_of (possShipsDict b2) n = Some ps0"
            by (simp_all add: b2)
          from b'(6) [OF this n(3)] show ?thesis by (simp add: p2_def)
        qed
        show "map_of (possShipsNumDict b') n = Some (length (pruned p st0 ps0))"
        proof (cases "n = name")
          case True
          then show ?thesis using here look n by simp
        next
          case False
          with n have "n \<in> set rest" "map_of (possShipsDict b2) n = Some ps0"
            by (simp_all add: b2)
          from b'(6) [OF this n(3)] show ?thesis by (simp add: p2_def)
        qed
      qed
    next
      fix n assume "n \<notin> set (name # rest)"
      then show "map_of (possShipsDict b') n = map_of (possShipsDict (board p)) n"
        and "map_of (possShipsNumDict b') n = map_of (possShipsNumDict (board p)) n"
        using b'(5) [of n] by (simp_all add: b2)
    qed (use run b' b2 in auto)
  qed
qed

lemma consistent_board [simp]: "consistent (p\<lparr>board := b\<rparr>) st conf = consistent p st conf"
  by (simp add: consistent_def)

text \<open>What one pruning step keeps, for a ship whose true placement is among its candidates.\<close>

lemma pruned_ok:
  assumes ship: "ship \<in> set ps"
    and fin: "\<forall>conf\<in>set ps. finite conf"
    and conf_st: "confirmed_pos st = hits q \<inter> ship"
    and hc: "hit_count st = int (card (confirmed_pos st))"
    and miss: "ship \<inter> misses q = {}"
    and old_miss: "last_move q \<noteq> 1 \<Longrightarrow> \<forall>conf\<in>set ps. conf \<inter> misses q = {}"
    and old_hit: "last_move q = 1 \<Longrightarrow> \<forall>conf\<in>set ps. confirmed_pos st \<noteq> {} \<longrightarrow>
        int (card (confirmed_pos st \<inter> conf)) = hit_count st \<and>
        int (card (hits q \<inter> conf)) = hit_count st"
  shows "ship \<in> set (pruned q st ps) \<and> set (pruned q st ps) \<subseteq> set ps \<and>
         (\<forall>conf\<in>set (pruned q st ps). consistent q st conf)"
proof -
  have sub: "confirmed_pos st \<inter> ship = confirmed_pos st" using conf_st by auto
  have true_ok: "consistent q st ship"
    using miss hc conf_st sub by (simp add: consistent_def)
  show ?thesis
  proof (cases "length ps = 1")
    case True
    with ship have "ps = [ship]" by (cases ps) auto
    then show ?thesis using true_ok by (simp add: pruned_def)
  next
    case False
    then have eq: "pruned q st ps = prune q st ps" by (simp add: pruned_def)
    show ?thesis
    proof (cases "last_move q = 1")
      case True
      then have pr: "prune q st ps = filter (\<lambda>conf. conf \<inter> misses q = {}) ps"
        by (simp add: prune_def Let_def)
      show ?thesis unfolding eq pr
        using ship miss old_hit [OF True] by (auto simp: consistent_def)
    next
      case lm: False
      show ?thesis
      proof (cases "confirmed_pos st = {}")
        case True
        then have pr: "prune q st ps = filter (\<lambda>conf. hits q \<inter> conf = {}) ps"
          using lm by (simp add: prune_def Let_def)
        show ?thesis unfolding eq pr
          using ship True conf_st old_miss [OF lm] by (auto simp: consistent_def)
      next
        case False
        then have pr: "prune q st ps = filter (\<lambda>conf. int (card (confirmed_pos st \<inter> conf)) = hit_count st
                                  \<and> hit_count st = int (card (hits q \<inter> conf))) ps"
          using lm by (simp add: prune_def Let_def)
        have "int (card (confirmed_pos st \<inter> ship)) = hit_count st"
          "hit_count st = int (card (hits q \<inter> ship))"
          using hc sub conf_st by simp_all
        then show ?thesis unfolding eq pr
          using ship old_miss [OF lm] by (auto simp: consistent_def)
      qed
    qed
  qed
qed

lemma attribute_hit_props:
  assumes "distinct ns" and "length ns = length ships" and "disjoint_list ships"
    and "c \<in> \<Union> (set ships)"
    and "\<forall>name\<in>set ns. \<exists>st. map_of sts name = Some st"
  shows "\<exists>i st st'. i < length ns \<and> c \<in> ships ! i \<and> map_of sts (ns ! i) = Some st \<and>
           attribute_hit sts c (zip ns ships) = Inr (AList.update (ns ! i) st' sts) \<and>
           confirmed_pos st' = insert c (confirmed_pos st) \<and>
           hit_count st' = hit_count st + 1"
  using assms
proof (induction ns arbitrary: ships)
  case Nil
  then show ?case by simp
next
  case (Cons name rest)
  then obtain ship ships' where ships: "ships = ship # ships'" by (cases ships) auto
  show ?case
  proof (cases "c \<in> ship")
    case True
    from Cons.prems(5) obtain st where st: "map_of sts name = Some st" by auto
    define st' where "st' = (let st1 = st\<lparr>hit_count := hit_count st + 1\<rparr>;
                  st2 = st1\<lparr>confirmed_pos := insert c (confirmed_pos st1)\<rparr>
              in (if hit_count st2 = int (card ship) then st2\<lparr>sunk := True\<rparr> else st2))"
    have "attribute_hit sts c (zip (name # rest) ships) = Inr (AList.update name st' sts)"
      using True st by (simp add: ships lookup_def st'_def Let_def)
    moreover have "confirmed_pos st' = insert c (confirmed_pos st)" "hit_count st' = hit_count st + 1"
      by (simp_all add: st'_def Let_def)
    ultimately show ?thesis
      using True st ships by (intro exI [of _ 0] exI [of _ st] exI [of _ st']) simp
  next
    case False
    from Cons.prems ships False have pre: "distinct rest" "length rest = length ships'"
      "disjoint_list ships'" "c \<in> \<Union> (set ships')"
      "\<forall>name\<in>set rest. \<exists>st. map_of sts name = Some st"
      by auto
    from Cons.IH [OF pre] obtain i st st' where i:
      "i < length rest" "c \<in> ships' ! i" "map_of sts (rest ! i) = Some st"
      "attribute_hit sts c (zip rest ships') = Inr (AList.update (rest ! i) st' sts)"
      "confirmed_pos st' = insert c (confirmed_pos st)" "hit_count st' = hit_count st + 1"
      by blast
    show ?thesis
      using i False ships
      by (intro exI [of _ "Suc i"] exI [of _ st] exI [of _ st']) simp
  qed
qed

lemma disjoint_list_nth:
  "disjoint_list xs \<Longrightarrow> i < length xs \<Longrightarrow> j < length xs \<Longrightarrow> i \<noteq> j \<Longrightarrow> xs ! i \<inter> xs ! j = {}"
proof -
  assume d: "disjoint_list xs" and i: "i < length xs" and j: "j < length xs" and ne: "i \<noteq> j"
  show ?thesis
  proof (cases "i < j")
    case True
    with d j show ?thesis by (simp add: sorted_wrt_iff_nth_less)
  next
    case False
    with ne have "j < i" by simp
    with d i have "xs ! j \<inter> xs ! i = {}" by (simp add: sorted_wrt_iff_nth_less)
    then show ?thesis by auto
  qed
qed

lemma upsp_inv:
  assumes wf: "board_wf (board q)"
    and len: "length (enemy_ships q) = length (names (board q))"
    and disj: "disjoint_list (enemy_ships q)"
    and eb: "enemy_board q = \<Union> (set (enemy_ships q))"
    and hits: "hits q \<subseteq> enemy_board q"
    and misses: "misses q \<inter> enemy_board q = {}"
    and nh: "num_hits q = int (card (hits q))"
    and th: "target_hits q = sum_list (map snd (shipLengths (board q)))"
    and ships: "\<forall>i<length (names (board q)). \<exists>L ps st.
        map_of (shipLengths (board q)) (names (board q) ! i) = Some L \<and>
        map_of (possShipsDict (board q)) (names (board q) ! i) = Some ps \<and>
        map_of (possShipsNumDict (board q)) (names (board q) ! i) = Some (length ps) \<and>
        map_of (enemy_ship_statuses q) (names (board q) ! i) = Some st \<and>
        enemy_ships q ! i \<in> set ps \<and>
        (\<forall>conf\<in>set ps. finite conf \<and> card conf = nat L) \<and>
        confirmed_pos st = hits q \<inter> enemy_ships q ! i \<and>
        hit_count st = int (card (confirmed_pos st)) \<and>
        (last_move q \<noteq> 1 \<longrightarrow> (\<forall>conf\<in>set ps. conf \<inter> misses q = {})) \<and>
        (last_move q = 1 \<longrightarrow> (\<forall>conf\<in>set ps. confirmed_pos st \<noteq> {} \<longrightarrow>
            int (card (confirmed_pos st \<inter> conf)) = hit_count st \<and>
            int (card (hits q \<inter> conf)) = hit_count st))"
  shows "\<exists>b'. update_possible_ship_positions q = Inr (q\<lparr>board := b'\<rparr>) \<and> game_inv (q\<lparr>board := b'\<rparr>) \<and>
           names b' = names (board q)"
proof -
  let ?ns = "names (board q)"
  have d: "distinct ?ns" using wf by (simp add: board_wf_def)
  have look: "\<forall>name\<in>set ?ns. \<exists>ps st. map_of (possShipsDict (board q)) name = Some ps \<and>
           map_of (possShipsNumDict (board q)) name = Some (length ps) \<and>
           map_of (enemy_ship_statuses q) name = Some st"
  proof
    fix name assume "name \<in> set ?ns"
    then obtain i where i: "i < length ?ns" "name = ?ns ! i" by (auto simp: in_set_conv_nth)
    from ships [rule_format, OF i(1)] obtain ps st where
      "map_of (possShipsDict (board q)) (?ns ! i) = Some ps"
      "map_of (possShipsNumDict (board q)) (?ns ! i) = Some (length ps)"
      "map_of (enemy_ship_statuses q) (?ns ! i) = Some st"
      by (elim exE conjE) (rule that; assumption)
    then show "\<exists>ps st. map_of (possShipsDict (board q)) name = Some ps \<and>
           map_of (possShipsNumDict (board q)) name = Some (length ps) \<and>
           map_of (enemy_ship_statuses q) name = Some st"
      unfolding i(2) by blast
  qed
  from upsp_loop_props [OF d look] obtain b' where b':
    "upsp_loop q ?ns = Inr (q\<lparr>board := b'\<rparr>)"
    "dim b' = dim (board q)" "names b' = ?ns" "shipLengths b' = shipLengths (board q)"
    "\<And>name ps st. name \<in> set ?ns \<Longrightarrow>
        map_of (possShipsDict (board q)) name = Some ps \<Longrightarrow>
        map_of (enemy_ship_statuses q) name = Some st \<Longrightarrow>
        map_of (possShipsDict b') name = Some (pruned q st ps) \<and>
        map_of (possShipsNumDict b') name = Some (length (pruned q st ps))"
    by blast
  let ?q' = "q\<lparr>board := b'\<rparr>"
  have ship_ok': "ship_ok ?q' (?ns ! i) (enemy_ships q ! i)" if i: "i < length ?ns" for i
  proof -
    from ships [rule_format, OF i] obtain L ps st where s:
      "map_of (shipLengths (board q)) (?ns ! i) = Some L"
      "map_of (possShipsDict (board q)) (?ns ! i) = Some ps"
      "map_of (enemy_ship_statuses q) (?ns ! i) = Some st"
      "enemy_ships q ! i \<in> set ps"
      "\<forall>conf\<in>set ps. finite conf \<and> card conf = nat L"
      "confirmed_pos st = hits q \<inter> enemy_ships q ! i"
      "hit_count st = int (card (confirmed_pos st))"
      "last_move q \<noteq> 1 \<longrightarrow> (\<forall>conf\<in>set ps. conf \<inter> misses q = {})"
      "last_move q = 1 \<longrightarrow> (\<forall>conf\<in>set ps. confirmed_pos st \<noteq> {} \<longrightarrow>
            int (card (confirmed_pos st \<inter> conf)) = hit_count st \<and>
            int (card (hits q \<inter> conf)) = hit_count st)"
      by (elim exE conjE) (rule that; assumption)
    have mem: "?ns ! i \<in> set ?ns" using i by simp
    have "enemy_ships q ! i \<in> set (enemy_ships q)" using i len by simp
    then have "enemy_ships q ! i \<subseteq> enemy_board q" using eb by auto
    then have m: "enemy_ships q ! i \<inter> misses q = {}" using misses by auto
    have fin: "\<forall>conf\<in>set ps. finite conf" using s(5) by simp
    from pruned_ok [OF s(4) fin s(6) s(7) m] s(8,9)
    have pr: "enemy_ships q ! i \<in> set (pruned q st ps)" "set (pruned q st ps) \<subseteq> set ps"
      "\<forall>conf\<in>set (pruned q st ps). consistent q st conf"
      by simp_all
    from b'(5) [OF mem s(2) s(3)] have new:
      "map_of (possShipsDict b') (?ns ! i) = Some (pruned q st ps)"
      "map_of (possShipsNumDict b') (?ns ! i) = Some (length (pruned q st ps))"
      by simp_all
    show ?thesis
      unfolding ship_ok_def
      using s(1,3,5,6,7) pr new b'(4)
      by (intro exI [of _ L] exI [of _ "pruned q st ps"] exI [of _ st]) auto
  qed
  have "game_inv ?q'"
    unfolding game_inv_def
    using wf len disj eb hits misses nh th b'(3,4) ship_ok'
    by (simp add: board_wf_def)
  then show ?thesis using b'(1,3) by (auto simp: update_possible_ship_positions_def)
qed

lemma ship_okE:
  assumes "ship_ok p name ship"
  obtains L ps st where
    "map_of (shipLengths (board p)) name = Some L"
    "map_of (possShipsDict (board p)) name = Some ps"
    "map_of (possShipsNumDict (board p)) name = Some (length ps)"
    "map_of (enemy_ship_statuses p) name = Some st"
    "ship \<in> set ps"
    "\<forall>conf\<in>set ps. finite conf \<and> card conf = nat L \<and> consistent p st conf"
    "confirmed_pos st = hits p \<inter> ship"
    "hit_count st = int (card (confirmed_pos st))"
  using assms unfolding ship_ok_def by (elim exE conjE) (rule that; assumption)

lemma game_inv_ship:
  "game_inv p \<Longrightarrow> i < length (names (board p)) \<Longrightarrow> ship_ok p (names (board p) ! i) (enemy_ships p ! i)"
  by (simp add: game_inv_def)

lemma game_invD:
  assumes "game_inv p"
  shows "board_wf (board p)"
    and "length (enemy_ships p) = length (names (board p))"
    and "disjoint_list (enemy_ships p)"
    and "enemy_board p = \<Union> (set (enemy_ships p))"
    and "hits p \<subseteq> enemy_board p"
    and "misses p \<inter> enemy_board p = {}"
    and "num_hits p = int (card (hits p))"
    and "target_hits p = sum_list (map snd (shipLengths (board p)))"
  using assms unfolding game_inv_def by blast+

lemma game_inv_finite_ship:
  assumes "game_inv p" and "i < length (names (board p))"
  shows "finite (enemy_ships p ! i)"
  using game_inv_ship [OF assms] by (elim ship_okE) blast

lemma game_inv_finite_board:
  assumes "game_inv p"
  shows "finite (enemy_board p)"
proof -
  have "\<forall>s\<in>set (enemy_ships p). finite s"
  proof
    fix s assume "s \<in> set (enemy_ships p)"
    then obtain i where "i < length (enemy_ships p)" "s = enemy_ships p ! i"
      by (auto simp: in_set_conv_nth)
    then show "finite s" using game_inv_finite_ship [OF assms, of i] game_invD(2) [OF assms]
      by simp
  qed
  then show ?thesis unfolding game_invD(4) [OF assms] by blast
qed

lemma miss_inv:
  assumes inv: "game_inv p" and c: "c \<notin> enemy_board p"
  defines "q \<equiv> p\<lparr>last_move := 1, misses := insert c (misses p)\<rparr>"
  shows "\<exists>b'. update_possible_ship_positions q = Inr (q\<lparr>board := b'\<rparr>) \<and> game_inv (q\<lparr>board := b'\<rparr>) \<and>
           names b' = names (board q)"
proof (rule upsp_inv)
  show "board_wf (board q)" "length (enemy_ships q) = length (names (board q))"
    "disjoint_list (enemy_ships q)" "enemy_board q = \<Union> (set (enemy_ships q))"
    "hits q \<subseteq> enemy_board q" "num_hits q = int (card (hits q))"
    "target_hits q = sum_list (map snd (shipLengths (board q)))"
    using game_invD [OF inv] unfolding q_def by simp_all
  show "misses q \<inter> enemy_board q = {}" using game_invD(6) [OF inv] c unfolding q_def by simp
  show "\<forall>i<length (names (board q)). \<exists>L ps st.
        map_of (shipLengths (board q)) (names (board q) ! i) = Some L \<and>
        map_of (possShipsDict (board q)) (names (board q) ! i) = Some ps \<and>
        map_of (possShipsNumDict (board q)) (names (board q) ! i) = Some (length ps) \<and>
        map_of (enemy_ship_statuses q) (names (board q) ! i) = Some st \<and>
        enemy_ships q ! i \<in> set ps \<and>
        (\<forall>conf\<in>set ps. finite conf \<and> card conf = nat L) \<and>
        confirmed_pos st = hits q \<inter> enemy_ships q ! i \<and>
        hit_count st = int (card (confirmed_pos st)) \<and>
        (last_move q \<noteq> 1 \<longrightarrow> (\<forall>conf\<in>set ps. conf \<inter> misses q = {})) \<and>
        (last_move q = 1 \<longrightarrow> (\<forall>conf\<in>set ps. confirmed_pos st \<noteq> {} \<longrightarrow>
            int (card (confirmed_pos st \<inter> conf)) = hit_count st \<and>
            int (card (hits q \<inter> conf)) = hit_count st))"
  proof (intro allI impI)
    fix i assume "i < length (names (board q))"
    then have i: "i < length (names (board p))" by (simp add: q_def)
    from game_inv_ship [OF inv i] obtain L ps st where s:
      "map_of (shipLengths (board p)) (names (board p) ! i) = Some L"
      "map_of (possShipsDict (board p)) (names (board p) ! i) = Some ps"
      "map_of (possShipsNumDict (board p)) (names (board p) ! i) = Some (length ps)"
      "map_of (enemy_ship_statuses p) (names (board p) ! i) = Some st"
      "enemy_ships p ! i \<in> set ps"
      "\<forall>conf\<in>set ps. finite conf \<and> card conf = nat L \<and> consistent p st conf"
      "confirmed_pos st = hits p \<inter> enemy_ships p ! i"
      "hit_count st = int (card (confirmed_pos st))"
      by (rule ship_okE)
    show "\<exists>L ps st.
        map_of (shipLengths (board q)) (names (board q) ! i) = Some L \<and>
        map_of (possShipsDict (board q)) (names (board q) ! i) = Some ps \<and>
        map_of (possShipsNumDict (board q)) (names (board q) ! i) = Some (length ps) \<and>
        map_of (enemy_ship_statuses q) (names (board q) ! i) = Some st \<and>
        enemy_ships q ! i \<in> set ps \<and>
        (\<forall>conf\<in>set ps. finite conf \<and> card conf = nat L) \<and>
        confirmed_pos st = hits q \<inter> enemy_ships q ! i \<and>
        hit_count st = int (card (confirmed_pos st)) \<and>
        (last_move q \<noteq> 1 \<longrightarrow> (\<forall>conf\<in>set ps. conf \<inter> misses q = {})) \<and>
        (last_move q = 1 \<longrightarrow> (\<forall>conf\<in>set ps. confirmed_pos st \<noteq> {} \<longrightarrow>
            int (card (confirmed_pos st \<inter> conf)) = hit_count st \<and>
            int (card (hits q \<inter> conf)) = hit_count st))"
    proof -
      have sel: "board q = board p" "enemy_ships q = enemy_ships p"
        "enemy_ship_statuses q = enemy_ship_statuses p" "hits q = hits p" "last_move q = 1"
        by (simp_all add: q_def)
      have a: "\<forall>conf\<in>set ps. finite conf \<and> card conf = nat L" using s(6) by blast
      have b: "\<forall>conf\<in>set ps. confirmed_pos st \<noteq> {} \<longrightarrow>
            int (card (confirmed_pos st \<inter> conf)) = hit_count st \<and>
            int (card (hits p \<inter> conf)) = hit_count st"
        using s(6) unfolding consistent_def by blast
      show ?thesis unfolding sel
        using s(1-5) a s(7,8) b by blast
    qed
  qed
qed

lemma hit_inv:
  assumes inv: "game_inv p" and c: "c \<in> enemy_board p" and fresh: "c \<notin> hits p"
  shows "\<exists>sts' b'.
     attribute_hit (enemy_ship_statuses p) c (zip (names (board p)) (enemy_ships p)) = Inr sts' \<and>
     update_possible_ship_positions
       (p\<lparr>hits := insert c (hits p), num_hits := num_hits p + 1, last_move := 2,
          enemy_ship_statuses := sts'\<rparr>)
       = Inr (p\<lparr>hits := insert c (hits p), num_hits := num_hits p + 1, last_move := 2,
          enemy_ship_statuses := sts', board := b'\<rparr>) \<and>
     game_inv (p\<lparr>hits := insert c (hits p), num_hits := num_hits p + 1, last_move := 2,
          enemy_ship_statuses := sts', board := b'\<rparr>) \<and>
     names b' = names (board p)"
proof -
  let ?ns = "names (board p)" and ?ships = "enemy_ships p" and ?sts = "enemy_ship_statuses p"
  note D = game_invD [OF inv]
  have d: "distinct ?ns" using D(1) by (simp add: board_wf_def)
  have sts: "\<forall>name\<in>set ?ns. \<exists>st. map_of ?sts name = Some st"
  proof
    fix name assume "name \<in> set ?ns"
    then obtain j where j: "j < length ?ns" "name = ?ns ! j" by (auto simp: in_set_conv_nth)
    from game_inv_ship [OF inv j(1)] show "\<exists>st. map_of ?sts name = Some st"
      unfolding j(2) by (elim ship_okE) blast
  qed
  have cU: "c \<in> \<Union> (set ?ships)" using c D(4) by simp
  from attribute_hit_props [OF d D(2) [symmetric] D(3) cU sts] obtain i st st' where i:
    "i < length ?ns" "c \<in> ?ships ! i" "map_of ?sts (?ns ! i) = Some st"
    "attribute_hit ?sts c (zip ?ns ?ships) = Inr (AList.update (?ns ! i) st' ?sts)"
    "confirmed_pos st' = insert c (confirmed_pos st)" "hit_count st' = hit_count st + 1"
    by blast
  define sts' where "sts' = AList.update (?ns ! i) st' ?sts"
  define q where "q = p\<lparr>hits := insert c (hits p), num_hits := num_hits p + 1, last_move := 2,
          enemy_ship_statuses := sts'\<rparr>"
  have sel: "board q = board p" "enemy_ships q = ?ships" "enemy_board q = enemy_board p"
    "enemy_ship_statuses q = sts'" "hits q = insert c (hits p)" "misses q = misses p"
    "last_move q = 2" "num_hits q = num_hits p + 1" "target_hits q = target_hits p"
    by (simp_all add: q_def)
  have fin_hits: "finite (hits p)"
    using D(5) game_inv_finite_board [OF inv] by (rule finite_subset)
  have look: "map_of sts' (?ns ! j) = (if j = i then Some st' else map_of ?sts (?ns ! j))"
    if "j < length ?ns" for j
    using that i(1) d by (simp add: sts'_def update_conv' nth_eq_iff_index_eq)
  have "\<exists>b'. update_possible_ship_positions q = Inr (q\<lparr>board := b'\<rparr>) \<and> game_inv (q\<lparr>board := b'\<rparr>) \<and>
           names b' = names (board q)"
  proof (rule upsp_inv)
    show "board_wf (board q)" "length (enemy_ships q) = length (names (board q))"
      "disjoint_list (enemy_ships q)" "enemy_board q = \<Union> (set (enemy_ships q))"
      "misses q \<inter> enemy_board q = {}"
      "target_hits q = sum_list (map snd (shipLengths (board q)))"
      unfolding sel using D by simp_all
    show "hits q \<subseteq> enemy_board q" unfolding sel using D(5) c by simp
    show "num_hits q = int (card (hits q))"
      unfolding sel using D(7) fin_hits fresh by simp
    show "\<forall>j<length (names (board q)). \<exists>L ps st.
        map_of (shipLengths (board q)) (names (board q) ! j) = Some L \<and>
        map_of (possShipsDict (board q)) (names (board q) ! j) = Some ps \<and>
        map_of (possShipsNumDict (board q)) (names (board q) ! j) = Some (length ps) \<and>
        map_of (enemy_ship_statuses q) (names (board q) ! j) = Some st \<and>
        enemy_ships q ! j \<in> set ps \<and>
        (\<forall>conf\<in>set ps. finite conf \<and> card conf = nat L) \<and>
        confirmed_pos st = hits q \<inter> enemy_ships q ! j \<and>
        hit_count st = int (card (confirmed_pos st)) \<and>
        (last_move q \<noteq> 1 \<longrightarrow> (\<forall>conf\<in>set ps. conf \<inter> misses q = {})) \<and>
        (last_move q = 1 \<longrightarrow> (\<forall>conf\<in>set ps. confirmed_pos st \<noteq> {} \<longrightarrow>
            int (card (confirmed_pos st \<inter> conf)) = hit_count st \<and>
            int (card (hits q \<inter> conf)) = hit_count st))"
      unfolding sel
    proof (intro allI impI)
      fix j assume j: "j < length ?ns"
      from game_inv_ship [OF inv j] obtain L ps stj where s:
        "map_of (shipLengths (board p)) (?ns ! j) = Some L"
        "map_of (possShipsDict (board p)) (?ns ! j) = Some ps"
        "map_of (possShipsNumDict (board p)) (?ns ! j) = Some (length ps)"
        "map_of ?sts (?ns ! j) = Some stj"
        "?ships ! j \<in> set ps"
        "\<forall>conf\<in>set ps. finite conf \<and> card conf = nat L \<and> consistent p stj conf"
        "confirmed_pos stj = hits p \<inter> ?ships ! j"
        "hit_count stj = int (card (confirmed_pos stj))"
        by (rule ship_okE)
      have a: "\<forall>conf\<in>set ps. finite conf \<and> card conf = nat L" using s(6) by blast
      have m: "\<forall>conf\<in>set ps. conf \<inter> misses p = {}"
        using s(6) unfolding consistent_def by blast
      have lm: "(2::int) \<noteq> 1" by simp
      obtain stn where stn: "map_of sts' (?ns ! j) = Some stn"
        "confirmed_pos stn = insert c (hits p) \<inter> ?ships ! j"
        "hit_count stn = int (card (confirmed_pos stn))"
      proof (cases "j = i")
        case True
        then have eq: "stj = st" using s(4) i(3) by simp
        have fin: "finite (confirmed_pos st)" using s(7) fin_hits unfolding eq by simp
        have notin: "c \<notin> confirmed_pos st" using s(7) fresh unfolding eq by simp
        have 1: "map_of sts' (?ns ! j) = Some st'" using look [OF j] True by simp
        have 2: "confirmed_pos st' = insert c (hits p) \<inter> ?ships ! j"
          using i(2,5) s(7) True unfolding eq by auto
        have "hit_count st' = int (card (confirmed_pos st)) + 1"
          using i(6) s(8) unfolding eq by simp
        also have "\<dots> = int (card (insert c (confirmed_pos st)))"
          using fin notin by simp
        finally have 3: "hit_count st' = int (card (confirmed_pos st'))" by (simp add: i(5))
        from 1 2 3 show ?thesis by (rule that)
      next
        case False
        have "?ships ! i \<inter> ?ships ! j = {}"
          using D(3) i(1) j False D(2) by (intro disjoint_list_nth) simp_all
        with i(2) have "c \<notin> ?ships ! j" by auto
        then have 2: "confirmed_pos stj = insert c (hits p) \<inter> ?ships ! j" using s(7) by auto
        have 1: "map_of sts' (?ns ! j) = Some stj" using look [OF j] False s(4) by simp
        from 1 2 s(8) show ?thesis by (rule that)
      qed
      show "\<exists>L ps st.
        map_of (shipLengths (board p)) (?ns ! j) = Some L \<and>
        map_of (possShipsDict (board p)) (?ns ! j) = Some ps \<and>
        map_of (possShipsNumDict (board p)) (?ns ! j) = Some (length ps) \<and>
        map_of sts' (?ns ! j) = Some st \<and>
        ?ships ! j \<in> set ps \<and>
        (\<forall>conf\<in>set ps. finite conf \<and> card conf = nat L) \<and>
        confirmed_pos st = insert c (hits p) \<inter> ?ships ! j \<and>
        hit_count st = int (card (confirmed_pos st)) \<and>
        ((2::int) \<noteq> 1 \<longrightarrow> (\<forall>conf\<in>set ps. conf \<inter> misses p = {})) \<and>
        ((2::int) = 1 \<longrightarrow> (\<forall>conf\<in>set ps. confirmed_pos st \<noteq> {} \<longrightarrow>
            int (card (confirmed_pos st \<inter> conf)) = hit_count st \<and>
            int (card (insert c (hits p) \<inter> conf)) = hit_count st))"
        using s(1,2,3) stn(1) s(5) a stn(2,3) m
        by (intro exI [of _ L] exI [of _ ps] exI [of _ stn]) simp
    qed
  qed
  then show ?thesis using i(4) unfolding q_def sts'_def by auto
qed

lemma move_inv:
  assumes inv: "game_inv p"
  shows "\<exists>p'. update_game_state p x y = Inr p' \<and> game_inv p'"
proof (cases "(x, y) \<in> enemy_board p")
  case True
  show ?thesis
  proof (cases "(x, y) \<in> hits p")
    case False
    from hit_inv [OF inv True False] obtain sts' b' where
      "attribute_hit (enemy_ship_statuses p) (x, y) (zip (names (board p)) (enemy_ships p)) = Inr sts'"
      "update_possible_ship_positions
         (p\<lparr>hits := insert (x, y) (hits p), num_hits := num_hits p + 1, last_move := 2,
            enemy_ship_statuses := sts'\<rparr>)
       = Inr (p\<lparr>hits := insert (x, y) (hits p), num_hits := num_hits p + 1, last_move := 2,
            enemy_ship_statuses := sts', board := b'\<rparr>)"
      "game_inv (p\<lparr>hits := insert (x, y) (hits p), num_hits := num_hits p + 1, last_move := 2,
            enemy_ship_statuses := sts', board := b'\<rparr>)"
      by blast
    then show ?thesis using True False by (simp add: update_game_state_def Let_def)
  next
    case hit: True
    then show ?thesis using True inv by (simp add: update_game_state_def)
  qed
next
  case False
  show ?thesis
  proof (cases "(x, y) \<in> misses p")
    case True
    then show ?thesis using False inv by (simp add: update_game_state_def)
  next
    case miss: False
    from miss_inv [OF inv False] obtain b' where
      "update_possible_ship_positions (p\<lparr>last_move := 1, misses := insert (x, y) (misses p)\<rparr>)
         = Inr (p\<lparr>last_move := 1, misses := insert (x, y) (misses p), board := b'\<rparr>)"
      "game_inv (p\<lparr>last_move := 1, misses := insert (x, y) (misses p), board := b'\<rparr>)"
      by blast
    then show ?thesis using False miss by (simp add: update_game_state_def Let_def)
  qed
qed

lemma redundant_move:
  assumes inv: "game_inv p" and tried: "(x, y) \<in> hits p \<union> misses p"
  shows "update_game_state p x y = Inr p"
proof (cases "(x, y) \<in> hits p")
  case True
  with game_invD(5) [OF inv] have "(x, y) \<in> enemy_board p" by blast
  with True show ?thesis by (simp add: update_game_state_def)
next
  case False
  with tried have m: "(x, y) \<in> misses p" by simp
  with game_invD(6) [OF inv] have "(x, y) \<notin> enemy_board p" by blast
  with m show ?thesis by (simp add: update_game_state_def)
qed

subsection \<open>The invariant holds in every reachable state\<close>

lemma map_of_const_map:
  "name \<in> set ns \<Longrightarrow> map_of (map (\<lambda>n. (n, v)) ns) name = Some v"
  by (induction ns) auto

lemma fresh_statuses_lookup:
  assumes "distinct ns" and "name \<in> set ns"
  shows "map_of (fresh_statuses ns) name = Some \<lparr>sunk = False, confirmed_pos = {}, hit_count = 0\<rparr>"
proof -
  have "map fst (map (\<lambda>n. (n, \<lparr>sunk = False, confirmed_pos = {}, hit_count = 0\<rparr>)) ns) = ns"
    by (simp add: o_def)
  with assms(1) have "fresh_statuses ns = map (\<lambda>n. (n, \<lparr>sunk = False, confirmed_pos = {}, hit_count = 0\<rparr>)) ns"
    unfolding fresh_statuses_def by (intro py_dict_distinct) simp
  then show ?thesis using assms(2) by (simp add: map_of_const_map)
qed

lemma fleet_inv:
  assumes fresh: "fresh_board (board p)"
    and cands: "list_all2 (cand (board p)) (names (board p)) (enemy_ships p)"
    and eb: "enemy_board p = \<Union> (set (enemy_ships p))"
    and disj: "disjoint_list (enemy_ships p)"
    and sts: "enemy_ship_statuses p = fresh_statuses (names (board p))"
    and start: "hits p = {}" "misses p = {}" "num_hits p = 0"
    and th: "target_hits p = sum_list (map snd (shipLengths (board p)))"
  shows "game_inv p"
proof -
  let ?b = "board p"
  have wf: "board_wf ?b" using fresh by (simp add: fresh_board_def)
  then have d: "distinct (names ?b)" by (simp add: board_wf_def)
  have len: "length (enemy_ships p) = length (names ?b)"
    using cands by (simp add: list_all2_lengthD)
  have ok: "ship_ok p (names ?b ! i) (enemy_ships p ! i)" if i: "i < length (names ?b)" for i
  proof -
    have mem: "names ?b ! i \<in> set (names ?b)" using i by simp
    with fresh obtain L where L:
      "map_of (shipLengths ?b) (names ?b ! i) = Some L"
      "map_of (possShipsDict ?b) (names ?b ! i) = Some (layouts (dim ?b) L)"
      "map_of (possShipsNumDict ?b) (names ?b ! i) = Some (length (layouts (dim ?b) L))"
      unfolding fresh_board_def by blast
    from cands i have "cand ?b (names ?b ! i) (enemy_ships p ! i)"
      by (simp add: list_all2_nthD)
    with L(2) have ship: "enemy_ships p ! i \<in> set (layouts (dim ?b) L)"
      by (auto simp: cand_def)
    have st: "map_of (enemy_ship_statuses p) (names ?b ! i)
              = Some \<lparr>sunk = False, confirmed_pos = {}, hit_count = 0\<rparr>"
      unfolding sts using d mem by (rule fresh_statuses_lookup)
    have all: "\<forall>conf\<in>set (layouts (dim ?b) L). finite conf \<and> card conf = nat L \<and>
                 consistent p \<lparr>sunk = False, confirmed_pos = {}, hit_count = 0\<rparr> conf"
      by (simp add: layouts_finite layouts_card consistent_def start)
    show ?thesis
      unfolding ship_ok_def
      using L st ship all start
      by (intro exI [of _ L] exI [of _ "layouts (dim ?b) L"]
            exI [of _ "\<lparr>sunk = False, confirmed_pos = {}, hit_count = 0\<rparr>"]) simp
  qed
  show ?thesis
    unfolding game_inv_def using wf len disj eb ok start th by simp
qed

lemma init_inv:
  assumes "BattleshipPlayer_init d ships boards tape = Returns (p, tape')"
  shows "game_inv p"
proof -
  from BattleshipBoard_init_fresh [of d ships] obtain b where b:
    "BattleshipBoard_init d ships = Inr b" "fresh_board b" by blast
  from assms b(1) obtain l u where
    fleet: "draw_fleet b tape = Returns ((l, u), tape')" and
    p: "p = \<lparr>board = b, enemy_ships = l, enemy_board = u,
              enemy_ship_statuses = fresh_statuses (names b),
              n_boards = boards, hits = {}, misses = {}, random_boards = [],
              name_order = names b,
              target_hits = sum_list (map snd (shipLengths b)),
              last_move = 0, num_hits = 0\<rparr>"
    by (auto simp: BattleshipPlayer_init_def split: run.splits)
  from draw_fleet_fresh [OF b(2) fleet] show ?thesis
    using b(2) unfolding p by (intro fleet_inv) simp_all
qed

lemma reset_inv:
  assumes inv: "game_inv p" and run: "reset p tape = Returns (p', tape')"
  shows "game_inv p'"
proof -
  from generateComponentLayouts_fresh [OF game_invD(1) [OF inv]] obtain b where b:
    "generateComponentLayouts (board p) = Inr b" "fresh_board b"
    "shipLengths b = shipLengths (board p)" by blast
  from run b(1) obtain l u where
    fleet: "draw_fleet b tape = Returns ((l, u), tape')" and
    p': "p' = p\<lparr>board := b, enemy_ships := l, enemy_board := u,
                    enemy_ship_statuses := fresh_statuses (names b),
                    last_move := 0, num_hits := 0, hits := {}, misses := {},
                    random_boards := [], name_order := names b\<rparr>"
    by (auto simp: reset_def split: run.splits)
  from draw_fleet_fresh [OF b(2) fleet] show ?thesis
    using b(2,3) game_invD(8) [OF inv] unfolding p' by (intro fleet_inv) simp_all
qed

lemma generate_random_boards_state:
  "generate_random_boards p tape = Returns (p', tape') \<Longrightarrow>
   \<exists>rb no. p' = p\<lparr>name_order := no, random_boards := rb\<rparr>"
  by (auto simp: generate_random_boards_def Let_def split: run.splits)

lemma game_inv_population [simp]:
  "game_inv (p\<lparr>name_order := no, random_boards := rb\<rparr>) = game_inv p"
  by (simp add: game_inv_def ship_ok_def consistent_def)

lemma generate_inv:
  "game_inv p \<Longrightarrow> generate_random_boards p tape = Returns (p', tape') \<Longrightarrow> game_inv p'"
  by (auto dest!: generate_random_boards_state)

lemma take_turn_inv:
  "game_inv p \<Longrightarrow> take_turn iter p tape = Returns (c, p', tape') \<Longrightarrow> game_inv p'"
  by (auto simp: take_turn_def split: run.splits dest: generate_inv)

lemma reachable_inv: "reachable p \<Longrightarrow> game_inv p"
proof (induction rule: reachable.induct)
  case (reach_init d ships boards tape p tape')
  then show ?case by (rule init_inv)
next
  case (reach_move p x y p')
  with move_inv [of p x y] show ?case by auto
next
  case (reach_generate p tape p' tape')
  then show ?case by (auto dest: generate_inv)
next
  case (reach_turn p iter tape c p' tape')
  then show ?case by (auto dest: take_turn_inv)
next
  case (reach_reset p tape p' tape')
  then show ?case by (auto dest: reset_inv)
qed

subsection \<open>A game on the 2 x 2 board with one ship of length 2\<close>

lemma demo_init: "BattleshipPlayer_init 2 [2] 3 [0] = Returns (demo_player demo_catalog {} {} [] 0, [])"
  by code_simp

lemma demo_hit: "update_game_state (demo_player demo_catalog {} {} [] 0) 0 0
   = Inr (demo_player [{(0, 0), (1, 0)}, {(0, 0), (0, 1)}] {(0, 0)} {} [] 2)"
  by code_simp

lemma demo_miss: "update_game_state (demo_player [{(0, 0), (1, 0)}, {(0, 0), (0, 1)}] {(0, 0)} {} [] 2) 0 1
   = Inr (demo_player [{(0, 0), (1, 0)}] {(0, 0)} {(0, 1)} [] 1)"
  by code_simp

lemma demo_reachable:
  "reachable (demo_player demo_catalog {} {} [] 0)"
  "reachable (demo_player [{(0, 0), (1, 0)}, {(0, 0), (0, 1)}] {(0, 0)} {} [] 2)"
  "reachable (demo_player [{(0, 0), (1, 0)}] {(0, 0)} {(0, 1)} [] 1)"
proof -
  show 0: "reachable (demo_player demo_catalog {} {} [] 0)"
    using demo_init by (rule reach_init)
  from 0 demo_hit show 1: "reachable (demo_player [{(0, 0), (1, 0)}, {(0, 0), (0, 1)}] {(0, 0)} {} [] 2)"
    by (rule reach_move)
  from 1 demo_miss show "reachable (demo_player [{(0, 0), (1, 0)}] {(0, 0)} {(0, 1)} [] 1)"
    by (rule reach_move)
qed

lemma demo_names [simp]: "names (board (demo_player ps hs ms boards lm)) = ''a''"
  by (simp add: demo_player_def demo_board_def)

subsection \<open>The number of occupied cells\<close>

lemma card_Union_disjoint_list:
  "disjoint_list xs \<Longrightarrow> \<forall>x\<in>set xs. finite x \<Longrightarrow> card (\<Union> (set xs)) = sum_list (map card xs)"
proof (induction xs)
  case Nil
  then show ?case by simp
next
  case (Cons x xs)
  then have "x \<inter> \<Union> (set xs) = {}" by auto
  moreover have "finite (\<Union> (set xs))" using Cons.prems by auto
  ultimately have "card (x \<union> \<Union> (set xs)) = card x + card (\<Union> (set xs))"
    using Cons.prems by (intro card_Un_disjoint) auto
  then show ?case using Cons by simp
qed

lemma sum_list_nat_int:
  "\<forall>L\<in>set Ls. (0::int) \<le> L \<Longrightarrow> int (sum_list (map nat Ls)) = sum_list Ls"
  by (induction Ls) auto

lemma game_inv_ship_card:
  assumes inv: "game_inv p" and i: "i < length (names (board p))"
  shows "card (enemy_ships p ! i) = nat (snd (shipLengths (board p) ! i))"
proof -
  note D = game_invD [OF inv]
  from D(1) have d: "distinct (names (board p))" and
    fst: "map fst (shipLengths (board p)) = names (board p)"
    by (simp_all add: board_wf_def)
  from fst have len: "length (shipLengths (board p)) = length (names (board p))"
    by (metis length_map)
  from game_inv_ship [OF inv i] obtain L ps st where s:
    "map_of (shipLengths (board p)) (names (board p) ! i) = Some L"
    "enemy_ships p ! i \<in> set ps"
    "\<forall>conf\<in>set ps. finite conf \<and> card conf = nat L \<and> consistent p st conf"
    by (elim ship_okE) blast
  have "shipLengths (board p) ! i \<in> set (shipLengths (board p))" using i len by simp
  moreover have "fst (shipLengths (board p) ! i) = names (board p) ! i"
    using fst i len by (metis nth_map)
  ultimately have "map_of (shipLengths (board p)) (names (board p) ! i)
                   = Some (snd (shipLengths (board p) ! i))"
    using d fst by (metis map_of_is_SomeI prod.collapse)
  with s(1) have "L = snd (shipLengths (board p) ! i)" by simp
  with s(2,3) show ?thesis by blast
qed

lemma game_inv_board_card:
  assumes inv: "game_inv p"
  shows "card (enemy_board p) = sum_list (map (nat \<circ> snd) (shipLengths (board p)))"
proof -
  note D = game_invD [OF inv]
  from D(1) have len: "length (shipLengths (board p)) = length (names (board p))"
    unfolding board_wf_def by (metis length_map)
  have fin: "\<forall>x\<in>set (enemy_ships p). finite x"
  proof
    fix x assume "x \<in> set (enemy_ships p)"
    then obtain i where "i < length (enemy_ships p)" "x = enemy_ships p ! i"
      by (auto simp: in_set_conv_nth)
    then show "finite x" using game_inv_finite_ship [OF inv, of i] D(2) by simp
  qed
  have "map card (enemy_ships p) = map (nat \<circ> snd) (shipLengths (board p))"
  proof (rule nth_equalityI)
    show "length (map card (enemy_ships p)) = length (map (nat \<circ> snd) (shipLengths (board p)))"
      using len D(2) by simp
  next
    fix i assume "i < length (map card (enemy_ships p))"
    then have i: "i < length (names (board p))" using D(2) by simp
    show "map card (enemy_ships p) ! i = map (nat \<circ> snd) (shipLengths (board p)) ! i"
      using game_inv_ship_card [OF inv i] i D(2) len by simp
  qed
  with card_Union_disjoint_list [OF D(3) fin] show ?thesis using D(4) by simp
qed

subsection \<open>Attempts that collide again and again\<close>

lemma two_ship_board_init: "BattleshipBoard_init 2 [1, 1] = Inr two_ship_board"
  by code_simp

lemma two_ship_draw:
  "draw_placement two_ship_board CHR ''a'' (0 # tape) = Some (Inr ({(0, 0)}, tape))"
  "draw_placement two_ship_board CHR ''b'' (0 # tape) = Some (Inr ({(0, 0)}, tape))"
  "draw_placement two_ship_board CHR ''a'' [] = None"
  "draw_placement two_ship_board CHR ''b'' [] = None"
  by (simp_all add: draw_placement_def two_ship_board_def lookup_def py_index_def py_int_def)

lemma two_ship_collect:
  "collect two_ship_board (Free CHR ''a'') ''b'' (Suc m) acc (replicate n 0) = Starved"
proof (induction n rule: less_induct)
  case (less n)
  show ?case
  proof (cases n)
    case 0
    then show ?thesis
      by (simp add: collect.simps attempt_def two_ship_draw)
  next
    case (Suc k)
    show ?thesis
    proof (cases k)
      case 0
      with Suc show ?thesis
        by (simp add: collect.simps attempt_def two_ship_draw)
    next
      case (Suc j)
      have "j < n" using Suc \<open>n = Suc k\<close> by simp
      from less.IH [OF this] show ?thesis
        using Suc \<open>n = Suc k\<close>
        by (subst collect.simps) (simp add: attempt_def two_ship_draw)
    qed
  qed
qed

lemma two_ship_retries: "randomBoard two_ship_board False ''ab'' 1 (replicate n 0) = Starved"
proof -
  have "randomBoard two_ship_board False ''ab'' 1 (replicate n 0)
        = collect two_ship_board (Free CHR ''a'') ''b'' (Suc 0) [] (replicate n 0)"
    by (simp add: randomBoard_def two_ship_board_def lookup_def)
  then show ?thesis by (simp add: two_ship_collect)
qed

lemma randomBoard_length:
  assumes "randomBoard b initial names0 batch_size tape = Returns (results, tape')"
  shows "length results = nat batch_size"
proof -
  from assms obtain st rest where "collect b st rest (nat batch_size) [] tape = Returns (results, tape')"
    by (auto simp: randomBoard_def Let_def split: list.splits sum.splits if_splits)
  from collect_Returns [OF this] show ?thesis by auto
qed

subsection \<open>Construction with a ship list that does not fit\<close>

lemma layouts_too_long: "d < n \<Longrightarrow> layouts d n = []"
  using length_layouts [of d n] by simp

lemma init_board:
  assumes "BattleshipPlayer_init d ships boards tape = Returns (p, tape')"
  shows "BattleshipBoard_init d ships = Inr (board p)"
  using assms by (auto simp: BattleshipPlayer_init_def split: sum.splits run.splits)

lemma init_empty: "BattleshipPlayer_init d [] boards tape = Raises ValueError"
proof -
  from BattleshipBoard_init_fresh [of d "[]"] obtain b where
    "BattleshipBoard_init d [] = Inr b" "names b = []" by auto
  then show ?thesis
    by (simp add: BattleshipPlayer_init_def draw_fleet_def randomBoard_def)
qed

lemma init_too_long:
  assumes k: "k < length ships" "k < 26" and long: "d < ships ! k"
  shows "BattleshipPlayer_init d ships boards tape \<noteq> Returns (p, tape')"
proof
  assume run: "BattleshipPlayer_init d ships boards tape = Returns (p, tape')"
  let ?nms = "take (length ships) ascii_lowercase"
  from BattleshipBoard_init_fresh [of d ships] init_board [OF run] have b:
    "fresh_board (board p)" "dim (board p) = d"
    "names (board p) = ?nms" "shipLengths (board p) = zip ?nms ships"
    by auto
  have len: "k < length ?nms" using k by (simp add: ascii_lowercase_def)
  have dist: "distinct ?nms" using distinct_ascii_lowercase by (rule distinct_take)
  have Lk: "map_of (shipLengths (board p)) (names (board p) ! k) = Some (ships ! k)"
    unfolding b(3,4) using dist len k(1) by (rule map_of_zip_nth_le)
  have "names (board p) ! k \<in> set (names (board p))" using len unfolding b(3) by (rule nth_mem)
  with b(1) Lk have cat: "map_of (possShipsDict (board p)) (names (board p) ! k) = Some (layouts d (ships ! k))"
    by (auto simp: fresh_board_def b(2) dest!: bspec)
  from init_inv [OF run] have "ship_ok p (names (board p) ! k) (enemy_ships p ! k)"
    using len b(3) by (intro game_inv_ship) simp_all
  then obtain ps where "map_of (possShipsDict (board p)) (names (board p) ! k) = Some ps"
    "enemy_ships p ! k \<in> set ps"
    by (elim ship_okE) blast
  with cat long show False by (simp add: layouts_too_long)
qed

lemma init_first_too_long:
  assumes ne: "ships \<noteq> []" and long: "d < ships ! 0" and tape: "tape \<noteq> []"
  shows "BattleshipPlayer_init d ships boards tape = Raises IndexError"
proof -
  let ?nms = "take (length ships) ascii_lowercase"
  from BattleshipBoard_init_fresh [of d ships] obtain b where b:
    "BattleshipBoard_init d ships = Inr b" "fresh_board b" "dim b = d"
    "names b = ?nms" "shipLengths b = zip ?nms ships"
    by blast
  from ne obtain L rest where ships: "ships = L # rest" by (cases ships) auto
  then obtain ns where nms: "names b = CHR ''a'' # ns"
    unfolding b(4) by (simp add: ascii_lowercase_def)
  have L: "map_of (shipLengths b) CHR ''a'' = Some L"
    unfolding b(5) ships by (simp add: ascii_lowercase_def)
  with b(2) nms have cat:
    "map_of (possShipsDict b) CHR ''a'' = Some (layouts d L)"
    "map_of (possShipsNumDict b) CHR ''a'' = Some (length (layouts d L))"
    by (auto simp: fresh_board_def b(3))
  have empty: "layouts d L = []" using long ships by (simp add: layouts_too_long)
  from tape obtain r tp where tp: "tape = r # tp" by (cases tape) auto
  have "draw_placement b CHR ''a'' tape = Some (Inl IndexError)"
    using cat empty tp by (simp add: draw_placement_def lookup_def)
  then have "collect b (Free CHR ''a'') ns (Suc 0) [] tape = Raises IndexError"
    by (simp add: collect.simps attempt_def)
  then have "randomBoard b True [] 1 tape = Raises IndexError"
    using nms cat empty by (simp add: randomBoard_def lookup_def)
  then show ?thesis using b(1) by (simp add: BattleshipPlayer_init_def draw_fleet_def)
qed

subsection \<open>Counter, most_common and the selected tile\<close>

lemma Counter_foldl:
  "map_of (foldl (\<lambda>c k. AList.update k (case map_of c k of None \<Rightarrow> 1 | Some n \<Rightarrow> n + 1) c) acc xs) k
   = (if map_of acc k \<noteq> None \<or> k \<in> set xs
      then Some ((case map_of acc k of None \<Rightarrow> 0 | Some n \<Rightarrow> n) + count_list xs k)
      else None)"
proof (induction xs arbitrary: acc)
  case Nil
  then show ?case by (auto split: option.splits)
next
  case (Cons x xs)
  let ?acc = "AList.update x (case map_of acc x of None \<Rightarrow> 1 | Some n \<Rightarrow> n + 1) acc"
  have m: "map_of ?acc = (map_of acc)(x \<mapsto> (case map_of acc x of None \<Rightarrow> 1 | Some n \<Rightarrow> n + 1))"
    by (simp add: update_conv')
  show ?case
    unfolding foldl_Cons Cons.IH [of ?acc] m
    by (auto split: option.splits)
qed

lemma Counter_distinct_foldl:
  "distinct (map fst acc) \<Longrightarrow>
   distinct (map fst (foldl (\<lambda>c k. AList.update k (case map_of c k of None \<Rightarrow> 1 | Some n \<Rightarrow> n + 1) c) acc xs))"
  by (induction xs arbitrary: acc) (simp_all add: distinct_update)

lemma Counter_lookup:
  "map_of (Counter xs) k = (if k \<in> set xs then Some (count_list xs k) else None)"
  unfolding Counter_def Counter_foldl by simp

lemma Counter_distinct: "distinct (map fst (Counter xs))"
  unfolding Counter_def by (rule Counter_distinct_foldl) simp

lemma Counter_mem: "(k, n) \<in> set (Counter xs) \<longleftrightarrow> k \<in> set xs \<and> n = count_list xs k"
proof -
  have "(k, n) \<in> set (Counter xs) \<longleftrightarrow> map_of (Counter xs) k = Some n"
    using Counter_distinct [of xs] by (simp add: map_of_eq_Some_iff)
  then show ?thesis unfolding Counter_lookup by auto
qed

lemma count_list_distinct: "distinct xs \<Longrightarrow> count_list xs c = (if c \<in> set xs then 1 else 0)"
  by (induction xs) auto

lemma count_list_boards:
  assumes "iter_ok iter" and "\<forall>b\<in>set boards. finite b"
  shows "count_list (concat (map iter boards)) c = freq boards c"
  using assms(2)
proof (induction boards)
  case Nil
  then show ?case by (simp add: freq_def)
next
  case (Cons b boards)
  then have "set (iter b) = b" "distinct (iter b)" using assms(1) by (auto simp: iter_ok_def)
  then have "count_list (iter b) c = (if c \<in> b then 1 else 0)"
    by (simp add: count_list_distinct)
  then show ?case using Cons by (simp add: freq_def)
qed

lemma set_concat_iter:
  assumes "iter_ok iter" and "\<forall>b\<in>set boards. finite b"
  shows "set (concat (map iter boards)) = \<Union> (set boards)"
  using assms by (auto simp: iter_ok_def)

lemma sorted_take_closed:
  "sorted (map f xs) \<Longrightarrow> x \<in> set (take n xs) \<Longrightarrow> y \<in> set xs \<Longrightarrow> f y < f x \<Longrightarrow> y \<in> set (take n xs)"
proof (induction xs arbitrary: n)
  case Nil
  then show ?case by simp
next
  case (Cons a xs)
  then obtain m where n: "n = Suc m" by (cases n) auto
  show ?case
  proof (cases "y = a")
    case True
    then show ?thesis by (simp add: n)
  next
    case False
    with Cons.prems have y: "y \<in> set xs" by simp
    have "x \<noteq> a"
    proof
      assume "x = a"
      with Cons.prems(1) y have "f x \<le> f y" by auto
      with Cons.prems(4) show False by simp
    qed
    with Cons.prems(2) n have "x \<in> set (take m xs)" by simp
    from Cons.IH [OF _ this y Cons.prems(4)] Cons.prems(1) show ?thesis by (simp add: n)
  qed
qed

lemma freq_le_length: "freq boards c \<le> length boards"
  by (simp add: freq_def)

lemma freq_pos_iff: "0 < freq boards c \<longleftrightarrow> (\<exists>b\<in>set boards. c \<in> b)"
  by (auto simp: freq_def filter_empty_conv)

lemma freq_all: "\<forall>b\<in>set boards. c \<in> b \<Longrightarrow> freq boards c = length boards"
  by (simp add: freq_def)

lemma distinct_map_sort_key: "distinct (map g (sort_key f xs)) = distinct (map g xs)"
proof -
  have "mset (map g (sort_key f xs)) = mset (map g xs)" by simp
  then show ?thesis by (rule mset_eq_imp_distinct_iff)
qed

lemma select_tile_window:
  fixes hs :: "cell set"
  assumes it: "iter_ok iter" and fin: "\<forall>b\<in>set boards. finite b"
  defines "W \<equiv> most_common (card hs + 1) (Counter (concat (map iter boards)))"
  shows "set W \<subseteq> {(k, n). (\<exists>b\<in>set boards. k \<in> b) \<and> n = freq boards k}"
    and "distinct (map fst W)"
    and "length W = min (card hs + 1) (card (\<Union> (set boards)))"
    and "(k, n) \<in> set W \<Longrightarrow> (\<exists>b\<in>set boards. k' \<in> b) \<Longrightarrow> freq boards k < freq boards k'
         \<Longrightarrow> (k', freq boards k') \<in> set W"
proof -
  let ?xs = "concat (map iter boards)"
  let ?items = "Counter ?xs"
  let ?f = "\<lambda>(k, cnt). - int cnt"
  let ?sorted = "sort_key ?f ?items"
  have W: "W = take (card hs + 1) ?sorted" by (simp add: W_def most_common_def)
  have items: "(k, n) \<in> set ?items \<longleftrightarrow> (\<exists>b\<in>set boards. k \<in> b) \<and> n = freq boards k" for k n
    unfolding Counter_mem set_concat_iter [OF it fin] count_list_boards [OF it fin] by auto
  have sub: "set W \<subseteq> set ?items" unfolding W using set_take_subset [of _ ?sorted] by simp
  show "set W \<subseteq> {(k, n). (\<exists>b\<in>set boards. k \<in> b) \<and> n = freq boards k}"
    using sub items by auto
  have dk: "distinct (map fst ?sorted)"
    unfolding distinct_map_sort_key by (rule Counter_distinct)
  show "distinct (map fst W)"
    unfolding W take_map [symmetric] using dk by (rule distinct_take)
  have "set (map fst ?items) = \<Union> (set boards)"
  proof (intro set_eqI iffI)
    fix k assume "k \<in> set (map fst ?items)"
    then obtain n where "(k, n) \<in> set ?items" by auto
    then show "k \<in> \<Union> (set boards)" unfolding items by blast
  next
    fix k assume "k \<in> \<Union> (set boards)"
    then have "(k, freq boards k) \<in> set ?items" unfolding items by blast
    then have "fst (k, freq boards k) \<in> fst ` set ?items" by (rule imageI)
    then show "k \<in> set (map fst ?items)" by simp
  qed
  then have "card (\<Union> (set boards)) = length (map fst ?items)"
    using distinct_card [OF Counter_distinct [of ?xs]] by simp
  then show "length W = min (card hs + 1) (card (\<Union> (set boards)))"
    unfolding W by (simp add: min.commute)
  show "(k', freq boards k') \<in> set W"
    if mem: "(k, n) \<in> set W" and occ: "\<exists>b\<in>set boards. k' \<in> b" and lt: "freq boards k < freq boards k'"
  proof -
    from mem sub have "(k, n) \<in> set ?items" by blast
    then have n: "n = freq boards k" unfolding items by simp
    have "(k', freq boards k') \<in> set ?items" unfolding items using occ by simp
    then have y: "(k', freq boards k') \<in> set ?sorted" by simp
    have "?f (k', freq boards k') < ?f (k, n)" using lt n by simp
    with sorted_take_closed [of ?f ?sorted "(k, n)" "card hs + 1" "(k', freq boards k')"] mem y
    show ?thesis unfolding W by simp
  qed
qed

lemma select_tile_eq:
  "select_tile iter hs boards =
     map_option fst (List.find (\<lambda>(tile, cnt). tile \<notin> hs)
        (rev (most_common (card hs + 1) (Counter (concat (map iter boards))))))"
  by (simp add: select_tile_def split: option.splits prod.splits)

lemma find_Some_mem: "List.find P xs = Some x \<Longrightarrow> x \<in> set xs \<and> P x"
  by (induction xs) (auto split: if_splits)

lemma select_tile_Some:
  assumes it: "iter_ok iter" and fin: "\<forall>b\<in>set boards. finite b"
    and fh: "finite hs" and sub: "\<forall>b\<in>set boards. hs \<subseteq> b"
    and sel: "select_tile iter hs boards = Some c"
  shows "c \<notin> hs \<and> (\<exists>b\<in>set boards. c \<in> b) \<and> (\<forall>c'. c' \<notin> hs \<longrightarrow> freq boards c' \<le> freq boards c)"
proof -
  define W where "W = most_common (card hs + 1) (Counter (concat (map iter boards)))"
  note win = select_tile_window [OF it fin, where hs = hs, folded W_def]
  from sel obtain cnt where found: "List.find (\<lambda>(tile, cnt). tile \<notin> hs) (rev W) = Some (c, cnt)"
    unfolding select_tile_eq W_def by auto
  then have mem: "(c, cnt) \<in> set W" and nh: "c \<notin> hs"
    by (auto dest: find_Some_mem)
  from mem win(1) have occ: "\<exists>b\<in>set boards. c \<in> b" and cnt: "cnt = freq boards c" by auto
  have best: "freq boards c' \<le> freq boards c" if c': "c' \<notin> hs" for c'
  proof (rule ccontr)
    assume "\<not> freq boards c' \<le> freq boards c"
    then have lt: "freq boards c < freq boards c'" by simp
    then have "0 < freq boards c'" by simp
    then have occ': "\<exists>b\<in>set boards. c' \<in> b" by (simp add: freq_pos_iff)
    from win(4) [OF mem occ' lt] have m': "(c', freq boards c') \<in> set W" .
    have hits_in: "h \<in> fst ` set W" if h: "h \<in> hs" for h
    proof -
      from h sub have all: "\<forall>b\<in>set boards. h \<in> b" by blast
      with occ have occh: "\<exists>b\<in>set boards. h \<in> b" by blast
      have "freq boards c' \<le> freq boards h"
        using freq_all [OF all] freq_le_length [of boards c'] by simp
      with lt have "freq boards c < freq boards h" by simp
      from win(4) [OF mem occh this] have "(h, freq boards h) \<in> set W" .
      then have "fst (h, freq boards h) \<in> fst ` set W" by (rule imageI)
      then show ?thesis by simp
    qed
    have "fst (c, cnt) \<in> fst ` set W" using mem by (rule imageI)
    moreover have "fst (c', freq boards c') \<in> fst ` set W" using m' by (rule imageI)
    ultimately have "insert c (insert c' hs) \<subseteq> fst ` set W" using hits_in by auto
    then have "card (insert c (insert c' hs)) \<le> card (fst ` set W)"
      by (intro card_mono) simp_all
    also have "\<dots> \<le> length W"
      using card_image_le [of "set W" fst] card_length [of W] by simp
    also have "\<dots> \<le> card hs + 1" using win(3) by simp
    finally have "card (insert c (insert c' hs)) \<le> card hs + 1" .
    moreover have "c \<noteq> c'" using lt by auto
    ultimately show False using fh nh c' by simp
  qed
  from nh occ best show ?thesis by blast
qed

lemma select_tile_None:
  assumes it: "iter_ok iter" and fin: "\<forall>b\<in>set boards. finite b"
    and fh: "finite hs" and sub: "\<forall>b\<in>set boards. hs \<subseteq> b"
  shows "select_tile iter hs boards = None \<longleftrightarrow> (\<forall>b\<in>set boards. b \<subseteq> hs)"
proof -
  define W where "W = most_common (card hs + 1) (Counter (concat (map iter boards)))"
  note win = select_tile_window [OF it fin, where hs = hs, folded W_def]
  have none: "select_tile iter hs boards = None \<longleftrightarrow> (\<forall>x\<in>set W. fst x \<in> hs)"
    unfolding select_tile_eq W_def [symmetric]
    by (simp add: find_None_iff case_prod_beta Ball_def) blast
  show ?thesis
  proof
    assume all: "\<forall>b\<in>set boards. b \<subseteq> hs"
    have "\<forall>x\<in>set W. fst x \<in> hs"
    proof
      fix x assume "x \<in> set W"
      with win(1) obtain b where "b \<in> set boards" "fst x \<in> b" by (cases x) auto
      with all show "fst x \<in> hs" by blast
    qed
    then show "select_tile iter hs boards = None" by (simp add: none)
  next
    assume "select_tile iter hs boards = None"
    then have inside: "fst ` set W \<subseteq> hs" unfolding none by blast
    show "\<forall>b\<in>set boards. b \<subseteq> hs"
    proof (rule ccontr)
      assume "\<not> (\<forall>b\<in>set boards. b \<subseteq> hs)"
      then obtain b c' where b: "b \<in> set boards" "c' \<in> b" "c' \<notin> hs" by blast
      have "insert c' hs \<subseteq> \<Union> (set boards)" using b sub by blast
      moreover have "finite (\<Union> (set boards))" using fin by blast
      ultimately have "card (insert c' hs) \<le> card (\<Union> (set boards))" by (rule card_mono [rotated])
      then have "card hs + 1 \<le> card (\<Union> (set boards))" using fh b(3) by simp
      then have len: "length W = card hs + 1" using win(3) by simp
      have "card (fst ` set W) = length W"
        using distinct_card [OF win(2)] by simp
      moreover have "card (fst ` set W) \<le> card hs" using inside fh by (rule card_mono [rotated])
      ultimately show False using len by simp
    qed
  qed
qed

subsection \<open>The population of candidate boards\<close>

lemma secret_cand:
  assumes "game_inv p" and "secret p name k"
  shows "cand (board p) name k"
proof -
  from assms(2) obtain i where i: "i < length (names (board p))" "names (board p) ! i = name"
    "k = enemy_ships p ! i" by (auto simp: secret_def)
  from game_inv_ship [OF assms(1) i(1)] show ?thesis
    unfolding i(2) i(3) cand_def by (elim ship_okE) blast
qed

lemma cand_props:
  assumes inv: "game_inv p" and c: "cand (board p) name k" and mem: "name \<in> set (names (board p))"
  shows "finite k" and "k \<inter> misses p = {}"
    and "\<exists>L. map_of (shipLengths (board p)) name = Some L \<and> card k = nat L"
    and "secret p name ship \<Longrightarrow> hits p \<inter> ship \<subseteq> k"
proof -
  from mem obtain i where i: "i < length (names (board p))" "names (board p) ! i = name"
    by (auto simp: in_set_conv_nth)
  from game_inv_ship [OF inv i(1)] obtain L ps st where s:
    "map_of (shipLengths (board p)) name = Some L"
    "map_of (possShipsDict (board p)) name = Some ps"
    "\<forall>conf\<in>set ps. finite conf \<and> card conf = nat L \<and> consistent p st conf"
    "confirmed_pos st = hits p \<inter> enemy_ships p ! i"
    "hit_count st = int (card (confirmed_pos st))"
    unfolding i(2) by (elim ship_okE) blast
  from c s(2) have k: "k \<in> set ps" by (auto simp: cand_def)
  with s(3) have kk: "finite k" "card k = nat L" "consistent p st k" by auto
  show "finite k" by fact
  show "k \<inter> misses p = {}" using kk(3) by (simp add: consistent_def)
  show "\<exists>L. map_of (shipLengths (board p)) name = Some L \<and> card k = nat L"
    using s(1) kk(2) by blast
  show "hits p \<inter> ship \<subseteq> k" if sec: "secret p name ship"
  proof -
    have d: "distinct (names (board p))" using game_invD(1) [OF inv] by (simp add: board_wf_def)
    from sec obtain j where j: "j < length (names (board p))" "names (board p) ! j = name"
      "ship = enemy_ships p ! j" by (auto simp: secret_def)
    have "names (board p) ! j = names (board p) ! i" using j(2) i(2) by simp
    then have "j = i" using d j(1) i(1) by (simp add: nth_eq_iff_index_eq)
    with j(3) s(4) have conf: "confirmed_pos st = hits p \<inter> ship" by simp
    show ?thesis
    proof (cases "confirmed_pos st = {}")
      case True
      with conf show ?thesis by simp
    next
      case False
      with kk(3) s(5) have "card (confirmed_pos st \<inter> k) = card (confirmed_pos st)"
        by (simp add: consistent_def)
      moreover have "finite (confirmed_pos st)"
        using conf game_inv_finite_ship [OF inv i(1)] \<open>j = i\<close> j(3) by simp
      ultimately have "confirmed_pos st \<inter> k = confirmed_pos st"
        by (intro card_subset_eq) auto
      then show ?thesis using conf by auto
    qed
  qed
qed

lemma lengths_by_name:
  "distinct (map fst sl) \<Longrightarrow> map (\<lambda>k. nat (the (map_of sl k))) (map fst sl) = map (nat \<circ> snd) sl"
proof (induction sl)
  case Nil
  then show ?case by simp
next
  case (Cons kv sl)
  obtain k v where kv: "kv = (k, v)" by (cases kv)
  from Cons.prems kv have "k \<notin> fst ` set sl" and d: "distinct (map fst sl)" by auto
  then have "map (\<lambda>k'. nat (the (map_of ((k, v) # sl) k'))) (map fst sl)
             = map (\<lambda>k'. nat (the (map_of sl k'))) (map fst sl)"
    by (intro map_cong) auto
  with Cons.IH [OF d] show ?case by (simp add: kv)
qed

lemma layout_board_ok:
  assumes inv: "game_inv p" and ms: "mset ns = mset (names (board p))"
    and cands: "list_all2 (cand (board p)) ns l" and disj: "disjoint_list l"
  shows "board_ok p (\<Union> (set l))"
proof -
  note D = game_invD [OF inv]
  let ?b = "board p"
  let ?g = "\<lambda>name. nat (the (map_of (shipLengths ?b) name))"
  have set_ns: "set ns = set (names ?b)" using ms by (rule mset_eq_setD)
  have len: "length l = length ns" using cands by (simp add: list_all2_lengthD)
  have each: "cand ?b (ns ! j) (l ! j)" "ns ! j \<in> set (names ?b)" if j: "j < length ns" for j
  proof -
    show "cand ?b (ns ! j) (l ! j)" using cands j by (rule list_all2_nthD)
    show "ns ! j \<in> set (names ?b)" unfolding set_ns [symmetric] using j by (rule nth_mem)
  qed
  have fin: "\<forall>k\<in>set l. finite k"
  proof
    fix k assume "k \<in> set l"
    then obtain j where "j < length ns" "k = l ! j" using len by (auto simp: in_set_conv_nth)
    with cand_props(1) [OF inv each(1) each(2)] show "finite k" by simp
  qed
  have miss: "\<Union> (set l) \<inter> misses p = {}"
  proof -
    have "k \<inter> misses p = {}" if "k \<in> set l" for k
    proof -
      from that obtain j where "j < length ns" "k = l ! j" using len by (auto simp: in_set_conv_nth)
      with cand_props(2) [OF inv each(1) each(2)] show ?thesis by simp
    qed
    then show ?thesis by blast
  qed
  have cards: "map card l = map ?g ns"
  proof (rule nth_equalityI)
    show "length (map card l) = length (map ?g ns)" using len by simp
  next
    fix j assume "j < length (map card l)"
    then have j: "j < length ns" using len by simp
    from cand_props(3) [OF inv each(1) [OF j] each(2) [OF j]]
    show "map card l ! j = map ?g ns ! j" using j len by auto
  qed
  have "card (\<Union> (set l)) = sum_list (map ?g ns)"
    using card_Union_disjoint_list [OF disj fin] cards by simp
  also have "\<dots> = sum_mset (image_mset ?g (mset ns))"
    by (simp add: sum_mset_sum_list [symmetric])
  also have "\<dots> = sum_list (map ?g (names ?b))"
    unfolding ms by (simp add: sum_mset_sum_list [symmetric])
  also have "\<dots> = sum_list (map (nat \<circ> snd) (shipLengths ?b))"
  proof -
    from D(1) have "map fst (shipLengths ?b) = names ?b" "distinct (map fst (shipLengths ?b))"
      by (simp_all add: board_wf_def)
    with lengths_by_name [of "shipLengths ?b"] show ?thesis by simp
  qed
  also have "\<dots> = card (enemy_board p)" using game_inv_board_card [OF inv] by simp
  finally have card: "card (\<Union> (set l)) = card (enemy_board p)" .
  have hits: "hits p \<subseteq> \<Union> (set l)"
  proof
    fix h assume h: "h \<in> hits p"
    with D(5) D(4) obtain s where "s \<in> set (enemy_ships p)" "h \<in> s" by auto
    then obtain i where i: "i < length (enemy_ships p)" "s = enemy_ships p ! i"
      by (auto simp: in_set_conv_nth)
    then have sec: "secret p (names ?b ! i) s" using D(2) by (auto simp: secret_def)
    have "names ?b ! i \<in> set ns" using i(1) D(2) set_ns by simp
    then obtain j where j: "j < length ns" "ns ! j = names ?b ! i" by (auto simp: in_set_conv_nth)
    from cand_props(4) [OF inv each(1) [OF j(1)] each(2) [OF j(1)], of s] sec j(2)
    have "hits p \<inter> s \<subseteq> l ! j" by simp
    with h \<open>h \<in> s\<close> have "h \<in> l ! j" by blast
    moreover have "l ! j \<in> set l" using j(1) len by simp
    ultimately show "h \<in> \<Union> (set l)" by blast
  qed
  from fin card hits miss show ?thesis by (auto simp: board_ok_def)
qed

lemma fixed_name_secret:
  assumes inv: "game_inv p" and mem: "name \<in> set (names (board p))"
    and one: "map_of (possShipsNumDict (board p)) name = Some 1"
    and ps: "map_of (possShipsDict (board p)) name = Some ps"
    and k: "py_index ps 0 = Inr k"
  shows "secret p name k"
proof -
  from mem obtain i where i: "i < length (names (board p))" "names (board p) ! i = name"
    by (auto simp: in_set_conv_nth)
  from game_inv_ship [OF inv i(1)] obtain ps' where s:
    "map_of (possShipsDict (board p)) name = Some ps'"
    "map_of (possShipsNumDict (board p)) name = Some (length ps')"
    "enemy_ships p ! i \<in> set ps'"
    unfolding i(2) by (elim ship_okE) blast
  from s(1) ps have "ps' = ps" by simp
  with s(2,3) one have "length ps = 1" "enemy_ships p ! i \<in> set ps" by simp_all
  then have "ps = [enemy_ships p ! i]" by (cases ps) auto
  with k have "k = enemy_ships p ! i" by (simp add: py_index_def)
  with i show ?thesis by (auto simp: secret_def)
qed

lemma fixed_placements_secret:
  assumes inv: "game_inv p" and sub: "set ns \<subseteq> set (names (board p))"
    and run: "fixed_placements (board p) ns = Inr start_l"
  shows "list_all2 (secret p) (filter (\<lambda>name. map_of (possShipsNumDict (board p)) name = Some 1) ns) start_l"
  using sub run
proof (induction ns arbitrary: start_l)
  case Nil
  then show ?case by simp
next
  case (Cons name rest)
  from Cons.prems(1) have mem: "name \<in> set (names (board p))" and sub': "set rest \<subseteq> set (names (board p))"
    by simp_all
  from Cons.prems(2) obtain n where n: "map_of (possShipsNumDict (board p)) name = Some n"
    by (auto split: sum.splits)
  show ?case
  proof (cases "n = 1")
    case True
    with Cons.prems(2) n obtain ps k ks where
      ps: "map_of (possShipsDict (board p)) name = Some ps" and k: "py_index ps 0 = Inr k" and
      ks: "fixed_placements (board p) rest = Inr ks" and l: "start_l = k # ks"
      by (auto simp: lookup_def split: sum.splits option.splits)
    from fixed_name_secret [OF inv mem _ ps k] n True have "secret p name k" by simp
    with Cons.IH [OF sub' ks] show ?thesis using n True l by simp
  next
    case False
    with Cons.prems(2) n have "fixed_placements (board p) rest = Inr start_l"
      by (simp add: lookup_def)
    from Cons.IH [OF sub' this] show ?thesis using n False by simp
  qed
qed

lemma free_names_filter:
  "free_names b ns = Inr rest \<Longrightarrow>
   rest = filter (\<lambda>name. map_of (possShipsNumDict b) name \<noteq> Some 1) ns"
proof (induction ns arbitrary: rest)
  case Nil
  then show ?case by simp
next
  case (Cons name ns)
  from Cons.prems obtain n rest' where
    n: "map_of (possShipsNumDict b) name = Some n" and r: "free_names b ns = Inr rest'" and
    rest: "rest = (if n \<noteq> 1 then name # rest' else rest')"
    by (auto simp: lookup_def split: sum.splits option.splits)
  from Cons.IH [OF r] show ?case using n rest by simp
qed

lemma secret_disjoint:
  assumes inv: "game_inv p" and d: "distinct F" and sec: "list_all2 (secret p) F ks"
  shows "disjoint_list ks"
  unfolding sorted_wrt_iff_nth_less
proof (intro allI impI)
  fix a b assume ab: "a < b" "b < length ks"
  have len: "length F = length ks" using sec by (rule list_all2_lengthD)
  from sec ab have "secret p (F ! a) (ks ! a)" "secret p (F ! b) (ks ! b)"
    by (simp_all add: list_all2_nthD2)
  then obtain i j where ij: "i < length (names (board p))" "names (board p) ! i = F ! a"
    "ks ! a = enemy_ships p ! i" "j < length (names (board p))" "names (board p) ! j = F ! b"
    "ks ! b = enemy_ships p ! j"
    unfolding secret_def by blast
  have "F ! a \<noteq> F ! b" using d ab len by (simp add: nth_eq_iff_index_eq)
  with ij(2,5) have "i \<noteq> j" by auto
  with disjoint_list_nth [OF game_invD(3) [OF inv], of i j] ij(1,4) game_invD(2) [OF inv]
  show "ks ! a \<inter> ks ! b = {}" unfolding ij(3,6) by simp
qed

lemma randomBoard_occupancy:
  assumes inv: "game_inv p" and ms: "mset ns = mset (names (board p))"
    and run: "randomBoard (board p) False ns batch tape = Returns (results, tape')"
  shows "\<forall>(l, t)\<in>set results. board_ok p t"
proof -
  let ?b = "board p"
  let ?one = "\<lambda>name. map_of (possShipsNumDict ?b) name = Some 1"
  have set_ns: "set ns = set (names ?b)" using ms by (rule mset_eq_setD)
  have d: "distinct ns"
    using mset_eq_imp_distinct_iff [OF ms] game_invD(1) [OF inv] by (simp add: board_wf_def)
  have ne: "ns \<noteq> []"
  proof
    assume "ns = []"
    with ms have "names ?b = []" by simp
    with run \<open>ns = []\<close> show False by (simp add: randomBoard_def)
  qed
  then obtain first rest where ns: "ns = first # rest" by (cases ns) auto
  from run ns obtain n where n: "map_of (possShipsNumDict ?b) first = Some n"
    by (auto simp: randomBoard_def lookup_def split: option.splits)
  show ?thesis
  proof (cases "n = 1")
    case False
    with run ns n have "collect ?b (Free first) rest (nat batch) [] tape = Returns (results, tape')"
      by (simp add: randomBoard_def lookup_def)
    from collect_Returns [OF this] have att:
      "\<forall>(l, t)\<in>set results. \<exists>tp tp'. attempt ?b (Free first) rest tp = Success l t tp'"
      by simp
    show ?thesis
    proof (clarify)
      fix l t assume "(l, t) \<in> set results"
      with att obtain tp tp' where "attempt ?b (Free first) rest tp = Success l t tp'" by blast
      from attempt_Free_Success [OF this] have
        "list_all2 (cand ?b) ns l" "t = \<Union> (set l)" "disjoint_list l"
        unfolding ns by simp_all
      with layout_board_ok [OF inv ms] show "board_ok p t" by simp
    qed
  next
    case True
    with run ns n obtain start_l rest' start_t where
      fx: "fixed_placements ?b ns = Inr start_l" and fr: "free_names ?b ns = Inr rest'" and
      su: "set_union start_l = Inr start_t" and
      co: "collect ?b (Fixed start_l start_t) rest' (nat batch) [] tape = Returns (results, tape')"
      by (auto simp: randomBoard_def lookup_def split: sum.splits)
    have sub: "set ns \<subseteq> set (names ?b)" using set_ns by simp
    note sec = fixed_placements_secret [OF inv sub fx]
    note rest' = free_names_filter [OF fr]
    from set_union_Inr [OF su] have start_t: "start_t = \<Union> (set start_l)" by simp
    have dF: "distinct (filter ?one ns)" using d by simp
    have disj_start: "disjoint_list start_l" using inv dF sec by (rule secret_disjoint)
    have cand_start: "list_all2 (cand ?b) (filter ?one ns) start_l"
      using sec secret_cand [OF inv] by (rule list_all2_mono)
    have perm: "mset (filter ?one ns @ rest') = mset (names ?b)"
      unfolding rest' ms [symmetric] by simp
    from collect_Returns [OF co] have att:
      "\<forall>(l, t)\<in>set results. \<exists>tp tp'. attempt ?b (Fixed start_l start_t) rest' tp = Success l t tp'"
      by simp
    show ?thesis
    proof (clarify)
      fix l t assume "(l, t) \<in> set results"
      with att obtain tp tp' where "draw_ships ?b rest' start_l start_t tp = Success l t tp'"
        by (auto simp: attempt_def)
      from draw_ships_Success [OF this] obtain ks where ks:
        "l = start_l @ ks" "list_all2 (cand ?b) rest' ks" "t = start_t \<union> \<Union> (set ks)"
        "disjoint_list ks" "\<forall>k\<in>set ks. k \<inter> start_t = {}"
        by blast
      have 1: "list_all2 (cand ?b) (filter ?one ns @ rest') l"
        unfolding ks(1) using cand_start ks(2) by (rule list_all2_appendI)
      have 2: "disjoint_list l"
        unfolding ks(1) sorted_wrt_append using disj_start ks(4,5) start_t by blast
      have 3: "t = \<Union> (set l)" unfolding ks(1,3) start_t by auto
      from layout_board_ok [OF inv perm 1 2] show "board_ok p t" unfolding 3 .
    qed
  qed
qed

lemma move_shape:
  assumes inv: "game_inv p" and run: "update_game_state p x y = Inr p1"
  shows "names (board p1) = names (board p) \<and> name_order p1 = name_order p \<and>
         random_boards p1 = random_boards p \<and> enemy_board p1 = enemy_board p \<and>
         n_boards p1 = n_boards p \<and> target_hits p1 = target_hits p \<and>
         (p1 = p \<or>
          (hits p1 = insert (x, y) (hits p) \<and> misses p1 = misses p \<and> last_move p1 = 2) \<or>
          (misses p1 = insert (x, y) (misses p) \<and> hits p1 = hits p \<and> last_move p1 = 1))"
proof (cases "(x, y) \<in> enemy_board p")
  case True
  show ?thesis
  proof (cases "(x, y) \<in> hits p")
    case False
    from hit_inv [OF inv True False] obtain sts' b' where
      "attribute_hit (enemy_ship_statuses p) (x, y) (zip (names (board p)) (enemy_ships p)) = Inr sts'"
      "update_possible_ship_positions
         (p\<lparr>hits := insert (x, y) (hits p), num_hits := num_hits p + 1, last_move := 2,
            enemy_ship_statuses := sts'\<rparr>)
       = Inr (p\<lparr>hits := insert (x, y) (hits p), num_hits := num_hits p + 1, last_move := 2,
            enemy_ship_statuses := sts', board := b'\<rparr>)"
      "names b' = names (board p)"
      by blast
    with run True False have "p1 = p\<lparr>hits := insert (x, y) (hits p), num_hits := num_hits p + 1, last_move := 2,
            enemy_ship_statuses := sts', board := b'\<rparr>"
      by (simp add: update_game_state_def Let_def)
    then show ?thesis using \<open>names b' = names (board p)\<close> by simp
  next
    case hit: True
    with run True have "p1 = p" by (simp add: update_game_state_def)
    then show ?thesis by simp
  qed
next
  case False
  show ?thesis
  proof (cases "(x, y) \<in> misses p")
    case True
    with run False have "p1 = p" by (simp add: update_game_state_def)
    then show ?thesis by simp
  next
    case miss: False
    from miss_inv [OF inv False] obtain b' where
      "update_possible_ship_positions (p\<lparr>last_move := 1, misses := insert (x, y) (misses p)\<rparr>)
         = Inr (p\<lparr>last_move := 1, misses := insert (x, y) (misses p), board := b'\<rparr>)"
      "names b' = names (board (p\<lparr>last_move := 1, misses := insert (x, y) (misses p)\<rparr>))"
      by blast
    with run False miss have "p1 = p\<lparr>last_move := 1, misses := insert (x, y) (misses p), board := b'\<rparr>"
      by (simp add: update_game_state_def Let_def)
    then show ?thesis using \<open>names b' = names (board (p\<lparr>last_move := 1, misses := insert (x, y) (misses p)\<rparr>))\<close>
      by simp
  qed
qed

lemma generate_synced:
  assumes inv: "game_inv p1" and ms: "mset (name_order p1) = mset (names (board p1))"
    and old: "\<forall>b\<in>set (random_boards p1). finite b \<and> card b = card (enemy_board p1) \<and>
               (last_move p1 = 1 \<longrightarrow> hits p1 \<subseteq> b) \<and> (last_move p1 \<noteq> 1 \<longrightarrow> b \<inter> misses p1 = {})"
    and run: "generate_random_boards p1 tape = Returns (p2, tape')"
  shows "synced p2 \<and> hits p2 = hits p1 \<and> misses p2 = misses p1 \<and>
         int (length (random_boards p2)) \<ge> n_boards p1"
proof -
  define rb where "rb = (if last_move p1 = 1
                    then filter (\<lambda>b. b \<inter> misses p1 = {}) (random_boards p1)
                    else filter (\<lambda>b. hits p1 - b = {}) (random_boards p1))"
  define no where "no = sort_key (\<lambda>x. case map_of (possShipsNumDict (board p1)) x of
                                     Some n \<Rightarrow> enat n | None \<Rightarrow> \<infinity>) (name_order p1)"
  from run obtain results where
    rbd: "randomBoard (board p1) False no (n_boards p1 - int (length rb)) tape = Returns (results, tape')" and
    p2: "p2 = p1\<lparr>name_order := no, random_boards := rb @ map snd results\<rparr>"
    by (auto simp: generate_random_boards_def Let_def rb_def no_def split: run.splits)
  have msno: "mset no = mset (names (board p1))" using ms by (simp add: no_def)
  have olds: "\<forall>b\<in>set rb. board_ok p1 b"
    using old by (auto simp: rb_def board_ok_def)
  from randomBoard_occupancy [OF inv msno rbd] have news: "\<forall>b\<in>set (map snd results). board_ok p1 b"
    by auto
  have "length results = nat (n_boards p1 - int (length rb))"
    using rbd by (rule randomBoard_length)
  then have len: "int (length (rb @ map snd results)) \<ge> n_boards p1" by simp
  have ok: "board_ok p2 b = board_ok p1 b" for b by (simp add: p2 board_ok_def)
  have "synced p2"
    unfolding synced_def ok using msno olds news by (auto simp: p2)
  then show ?thesis using len by (simp add: p2)
qed

lemma refreshed_reachable: "refreshed p \<Longrightarrow> reachable p"
proof (induction rule: refreshed.induct)
  case (refreshed_init d ships boards tape p tape')
  then show ?case by (rule reach_init)
next
  case (refreshed_generate p tape p' tape')
  then show ?case by (auto intro: reach_generate)
next
  case (refreshed_move p x y p1 tape p2 tape')
  then have "reachable p1" by (auto intro: reach_move)
  with refreshed_move show ?case by (auto intro: reach_generate)
next
  case (refreshed_reset p tape p' tape')
  then show ?case by (auto intro: reach_reset)
qed

lemma one_move_stale:
  assumes inv: "game_inv p" and sy: "synced p"
    and mv: "p1 = p \<or> update_game_state p x y = Inr p1"
  shows "game_inv p1 \<and> mset (name_order p1) = mset (names (board p1)) \<and>
         (\<forall>b\<in>set (random_boards p1). finite b \<and> card b = card (enemy_board p1) \<and>
               (last_move p1 = 1 \<longrightarrow> hits p1 \<subseteq> b) \<and> (last_move p1 \<noteq> 1 \<longrightarrow> b \<inter> misses p1 = {}))"
proof (cases "p1 = p")
  case True
  with inv sy show ?thesis by (auto simp: synced_def board_ok_def)
next
  case False
  with mv have run: "update_game_state p x y = Inr p1" by simp
  from move_inv [OF inv, of x y] run have inv1: "game_inv p1" by simp
  note sh = move_shape [OF inv run]
  from sh False have cases:
    "(hits p1 = insert (x, y) (hits p) \<and> misses p1 = misses p \<and> last_move p1 = 2) \<or>
     (misses p1 = insert (x, y) (misses p) \<and> hits p1 = hits p \<and> last_move p1 = 1)"
    by blast
  have same: "names (board p1) = names (board p)" "name_order p1 = name_order p"
    "random_boards p1 = random_boards p" "enemy_board p1 = enemy_board p"
    using sh by simp_all
  have old: "\<forall>b\<in>set (random_boards p). finite b \<and> card b = card (enemy_board p) \<and>
               hits p \<subseteq> b \<and> b \<inter> misses p = {}"
    using sy by (simp add: synced_def board_ok_def)
  have "\<forall>b\<in>set (random_boards p1). finite b \<and> card b = card (enemy_board p1) \<and>
               (last_move p1 = 1 \<longrightarrow> hits p1 \<subseteq> b) \<and> (last_move p1 \<noteq> 1 \<longrightarrow> b \<inter> misses p1 = {})"
    unfolding same
  proof
    fix b assume "b \<in> set (random_boards p)"
    with old have o: "finite b" "card b = card (enemy_board p)" "hits p \<subseteq> b" "b \<inter> misses p = {}"
      by blast+
    from cases show "finite b \<and> card b = card (enemy_board p) \<and>
               (last_move p1 = 1 \<longrightarrow> hits p1 \<subseteq> b) \<and> (last_move p1 \<noteq> 1 \<longrightarrow> b \<inter> misses p1 = {})"
    proof
      assume "hits p1 = insert (x, y) (hits p) \<and> misses p1 = misses p \<and> last_move p1 = 2"
      then show ?thesis using o by simp
    next
      assume "misses p1 = insert (x, y) (misses p) \<and> hits p1 = hits p \<and> last_move p1 = 1"
      then show ?thesis using o by simp
    qed
  qed
  moreover have "mset (name_order p1) = mset (names (board p1))"
    unfolding same using sy by (simp add: synced_def)
  ultimately show ?thesis using inv1 by blast
qed

lemma init_synced:
  "BattleshipPlayer_init d ships boards tape = Returns (p, tape') \<Longrightarrow> synced p"
  by (auto simp: BattleshipPlayer_init_def synced_def split: sum.splits run.splits)

lemma reset_synced: "reset p tape = Returns (p', tape') \<Longrightarrow> synced p'"
  by (auto simp: reset_def synced_def split: sum.splits run.splits)

lemma refreshed_synced: "refreshed p \<Longrightarrow> synced p"
proof (induction rule: refreshed.induct)
  case (refreshed_init d ships boards tape p tape')
  then show ?case by (rule init_synced)
next
  case (refreshed_generate p tape p' tape')
  from refreshed_generate(1) have inv: "game_inv p" by (intro reachable_inv refreshed_reachable)
  from one_move_stale [OF inv refreshed_generate.IH, of p] generate_synced [OF _ _ _ refreshed_generate(2)]
  show ?case by blast
next
  case (refreshed_move p x y p1 tape p2 tape')
  from refreshed_move(1) have inv: "game_inv p" by (intro reachable_inv refreshed_reachable)
  from one_move_stale [OF inv refreshed_move.IH, of p1 x y] refreshed_move(2)
    generate_synced [OF _ _ _ refreshed_move(3)]
  show ?case by blast
next
  case (refreshed_reset p tape p' tape')
  then show ?case by (auto intro: reset_synced)
qed

lemma take_turn_synced:
  assumes rf: "refreshed p" and mv: "p1 = p \<or> update_game_state p x y = Inr p1"
    and run: "take_turn iter p1 tape = Returns (c, p2, tape')"
  shows "game_inv p2" and "synced p2" and "c = select_tile iter (hits p2) (random_boards p2)"
    and "hits p2 = hits p1" and "misses p2 = misses p1" and "int (length (random_boards p2)) \<ge> n_boards p1"
    and "enemy_board p2 = enemy_board p1" and "board p2 = board p1" and "num_hits p2 = num_hits p1"
    and "target_hits p2 = target_hits p1"
proof -
  from rf have inv: "game_inv p" by (intro reachable_inv refreshed_reachable)
  from run obtain gen: "generate_random_boards p1 tape = Returns (p2, tape')"
    and c: "c = select_tile iter (hits p2) (random_boards p2)"
    by (auto simp: take_turn_def split: run.splits)
  from one_move_stale [OF inv refreshed_synced [OF rf] mv] have st:
    "game_inv p1" "mset (name_order p1) = mset (names (board p1))"
    "\<forall>b\<in>set (random_boards p1). finite b \<and> card b = card (enemy_board p1) \<and>
               (last_move p1 = 1 \<longrightarrow> hits p1 \<subseteq> b) \<and> (last_move p1 \<noteq> 1 \<longrightarrow> b \<inter> misses p1 = {})"
    by blast+
  from generate_synced [OF st gen] show "synced p2" "hits p2 = hits p1" "misses p2 = misses p1"
    "int (length (random_boards p2)) \<ge> n_boards p1" by blast+
  from generate_inv [OF st(1) gen] show "game_inv p2" .
  from generate_random_boards_state [OF gen]
  show "enemy_board p2 = enemy_board p1" "board p2 = board p1" "num_hits p2 = num_hits p1"
    "target_hits p2 = target_hits p1" by auto
  show "c = select_tile iter (hits p2) (random_boards p2)" by fact
qed

lemma sum_list_le_nat:
  "sum_list (map snd sl) \<le> int (sum_list (map (nat \<circ> snd) sl))"
  by (induction sl) auto

lemma synced_finite:
  assumes "game_inv p" and "synced p"
  shows "finite (hits p)" and "\<forall>b\<in>set (random_boards p). finite b"
    and "\<forall>b\<in>set (random_boards p). hits p \<subseteq> b"
proof -
  show "finite (hits p)"
    using game_invD(5) [OF assms(1)] game_inv_finite_board [OF assms(1)] by (rule finite_subset)
  show "\<forall>b\<in>set (random_boards p). finite b" "\<forall>b\<in>set (random_boards p). hits p \<subseteq> b"
    using assms(2) by (simp_all add: synced_def board_ok_def)
qed

lemma iter_ok_sorted: "iter_ok sorted_list_of_set"
  by (simp add: iter_ok_def)

lemma iter_ok_rev_sorted: "iter_ok (rev \<circ> sorted_list_of_set)"
  by (simp add: iter_ok_def)

lemma demo_refreshed: "refreshed (demo_player demo_catalog {} {} [] 0)"
  using demo_init by (rule refreshed_init)

lemma demo_turn_after_hit:
  "take_turn sorted_list_of_set (demo_player [{(0, 0), (1, 0)}, {(0, 0), (0, 1)}] {(0, 0)} {} [] 2) [0, 1/2, 0]
   = Returns (Some (1, 0),
       demo_player [{(0, 0), (1, 0)}, {(0, 0), (0, 1)}] {(0, 0)} {}
         [{(0, 0), (1, 0)}, {(0, 0), (0, 1)}, {(0, 0), (1, 0)}] 2, [])"
  by code_simp

subsection \<open>Random draws on which the sampler returns\<close>

lemma secret_exists:
  assumes "game_inv p" and "set ns \<subseteq> set (names (board p))"
  shows "\<exists>ss. list_all2 (secret p) ns ss"
  using assms(2)
proof (induction ns)
  case Nil
  then show ?case by simp
next
  case (Cons name ns)
  then obtain ss where ss: "list_all2 (secret p) ns ss" by auto
  from Cons.prems obtain i where "i < length (names (board p))" "names (board p) ! i = name"
    by (auto simp: in_set_conv_nth)
  then have "secret p name (enemy_ships p ! i)" by (auto simp: secret_def)
  with ss have "list_all2 (secret p) (name # ns) (enemy_ships p ! i # ss)" by simp
  then show ?case by blast
qed

lemma py_int_pick:
  assumes "i < n"
  shows "py_int (of_nat n * (of_nat i / of_nat n)) = int i"
proof -
  from assms have "(of_nat n :: rat) \<noteq> 0" by simp
  then have "(of_nat n :: rat) * (of_nat i / of_nat n) = of_nat i" by simp
  then show ?thesis by (simp add: py_int_def)
qed

lemma draw_secret:
  assumes inv: "game_inv p" and sec: "secret p name s"
  shows "\<exists>r. \<forall>tp. draw_placement (board p) name (r # tp) = Some (Inr (s, tp))"
proof -
  from sec obtain j where j: "j < length (names (board p))" "names (board p) ! j = name"
    "s = enemy_ships p ! j" by (auto simp: secret_def)
  from game_inv_ship [OF inv j(1)] obtain ps where ps:
    "map_of (possShipsDict (board p)) name = Some ps"
    "map_of (possShipsNumDict (board p)) name = Some (length ps)"
    "s \<in> set ps"
    unfolding j(2) j(3) [symmetric] by (elim ship_okE) blast
  from ps(3) obtain i where i: "i < length ps" "ps ! i = s" by (auto simp: in_set_conv_nth)
  have pick: "py_int (of_nat (length ps) * (of_nat i / of_nat (length ps))) = int i"
    using i(1) by (rule py_int_pick)
  have idx: "py_index ps (int i) = Inr s" using i by (simp add: py_index_def)
  have "draw_placement (board p) name ((of_nat i / of_nat (length ps)) # tp) = Some (Inr (s, tp))" for tp
    by (simp only: draw_placement_def lookup_def ps(1,2) option.simps sum.simps list.simps pick idx)
  then show ?thesis by blast
qed

lemma draw_ships_secret:
  assumes inv: "game_inv p"
  shows "list_all2 (secret p) ns ss \<Longrightarrow> disjoint_list ss \<Longrightarrow> \<forall>s\<in>set ss. s \<inter> t = {} \<Longrightarrow>
         \<exists>rs. \<forall>tp l. draw_ships (board p) ns l t (rs @ tp) = Success (l @ ss) (t \<union> \<Union> (set ss)) tp"
proof (induction ns ss arbitrary: t rule: list_all2_induct)
  case Nil
  have "\<forall>tp l. draw_ships (board p) [] l t ([] @ tp) = Success (l @ []) (t \<union> \<Union> (set [])) tp"
    by simp
  then show ?case by blast
next
  case (Cons name ns s ss)
  from draw_secret [OF inv Cons.hyps(1)] obtain r where
    r: "\<And>tp. draw_placement (board p) name (r # tp) = Some (Inr (s, tp))" by blast
  from Cons.prems have d: "disjoint_list ss" and far: "\<forall>s'\<in>set ss. s' \<inter> (t \<union> s) = {}"
    and here: "s \<inter> t = {}"
    by auto
  from Cons.IH [OF d far] obtain rs where
    rs: "\<And>tp l. draw_ships (board p) ns l (t \<union> s) (rs @ tp) = Success (l @ ss) ((t \<union> s) \<union> \<Union> (set ss)) tp"
    by blast
  have "draw_ships (board p) (name # ns) l t ((r # rs) @ tp)
        = Success (l @ s # ss) (t \<union> \<Union> (set (s # ss))) tp" for tp l
    using r [of "rs @ tp"] here rs [of "l @ [s]" tp] by (simp add: Un_assoc)
  then show ?case by blast
qed

lemma collect_can_return:
  assumes "\<And>tp. \<exists>l t. attempt b st rest (rs @ tp) = Success l t tp"
  shows "\<exists>res. collect b st rest n acc (concat (replicate n rs) @ tp) = Returns (res, tp)"
proof (induction n arbitrary: acc)
  case 0
  then show ?case by (simp add: collect.simps)
next
  case (Suc n)
  from assms [of "concat (replicate n rs) @ tp"] obtain l t where
    a: "attempt b st rest (rs @ concat (replicate n rs) @ tp) = Success l t (concat (replicate n rs) @ tp)"
    by blast
  from Suc [of "acc @ [(l, t)]"] obtain res where
    "collect b st rest n (acc @ [(l, t)]) (concat (replicate n rs) @ tp) = Returns (res, tp)"
    by blast
  with a have "collect b st rest (Suc n) acc (concat (replicate (Suc n) rs) @ tp) = Returns (res, tp)"
    by (subst collect.simps) simp
  then show ?case by blast
qed

lemma fixed_placements_total:
  assumes inv: "game_inv p" and sub: "set ns \<subseteq> set (names (board p))"
  shows "\<exists>l. fixed_placements (board p) ns = Inr l"
  using sub
proof (induction ns)
  case Nil
  then show ?case by simp
next
  case (Cons name ns)
  then obtain l where l: "fixed_placements (board p) ns = Inr l" by auto
  from Cons.prems obtain i where i: "i < length (names (board p))" "names (board p) ! i = name"
    by (auto simp: in_set_conv_nth)
  from game_inv_ship [OF inv i(1)] obtain ps where ps:
    "map_of (possShipsDict (board p)) name = Some ps"
    "map_of (possShipsNumDict (board p)) name = Some (length ps)"
    unfolding i(2) by (elim ship_okE) blast
  show ?case
  proof (cases "length ps = 1")
    case True
    then obtain k where "ps = [k]" by (cases ps) auto
    then show ?thesis using ps l True by (simp add: lookup_def py_index_def)
  next
    case False
    then show ?thesis using ps l by (simp add: lookup_def)
  qed
qed

lemma free_names_total:
  assumes inv: "game_inv p" and sub: "set ns \<subseteq> set (names (board p))"
  shows "\<exists>l. free_names (board p) ns = Inr l"
  using sub
proof (induction ns)
  case Nil
  then show ?case by simp
next
  case (Cons name ns)
  then obtain l where l: "free_names (board p) ns = Inr l" by auto
  from Cons.prems obtain i where i: "i < length (names (board p))" "names (board p) ! i = name"
    by (auto simp: in_set_conv_nth)
  from game_inv_ship [OF inv i(1)] obtain n where
    "map_of (possShipsNumDict (board p)) name = Some n"
    unfolding i(2) by (elim ship_okE) (erule that)
  then show ?case using l by (simp add: lookup_def)
qed

lemma randomBoard_can_return:
  assumes inv: "game_inv p" and ms: "mset ns = mset (names (board p))"
    and ne: "names (board p) \<noteq> []"
  shows "\<exists>tape results. randomBoard (board p) False ns batch tape = Returns (results, [])"
proof -
  let ?b = "board p"
  let ?one = "\<lambda>name. map_of (possShipsNumDict ?b) name = Some 1"
  have set_ns: "set ns = set (names ?b)" using ms by (rule mset_eq_setD)
  then have sub: "set ns \<subseteq> set (names ?b)" by simp
  have d: "distinct ns"
    using mset_eq_imp_distinct_iff [OF ms] game_invD(1) [OF inv] by (simp add: board_wf_def)
  from ne ms have "ns \<noteq> []" by auto
  then obtain first rest where ns: "ns = first # rest" by (cases ns) auto
  from free_names_total [OF inv sub] obtain n where n: "map_of (possShipsNumDict ?b) first = Some n"
    unfolding ns by (auto simp: lookup_def split: option.splits sum.splits)
  show ?thesis
  proof (cases "n = 1")
    case False
    from secret_exists [OF inv sub] obtain ss where ss: "list_all2 (secret p) ns ss" by blast
    then obtain s0 ss' where ss': "ss = s0 # ss'" "secret p first s0" "list_all2 (secret p) rest ss'"
      unfolding ns by (cases ss) auto
    from secret_disjoint [OF inv d ss] have dj: "disjoint_list ss'" "\<forall>s\<in>set ss'. s \<inter> s0 = {}"
      unfolding ss'(1) by auto
    from draw_secret [OF inv ss'(2)] obtain r0 where
      r0: "\<And>tp. draw_placement ?b first (r0 # tp) = Some (Inr (s0, tp))" by blast
    from draw_ships_secret [OF inv ss'(3) dj] obtain rs where
      rs: "\<And>tp l. draw_ships ?b rest l s0 (rs @ tp) = Success (l @ ss') (s0 \<union> \<Union> (set ss')) tp"
      by blast
    have att: "\<exists>l t. attempt ?b (Free first) rest ((r0 # rs) @ tp) = Success l t tp" for tp
      using r0 [of "rs @ tp"] rs [of "[s0]" tp] by (simp add: attempt_def)
    from collect_can_return [of ?b "Free first" rest "r0 # rs", OF att, of "nat batch" "[]" "[]"]
    obtain res where
      "collect ?b (Free first) rest (nat batch) [] (concat (replicate (nat batch) (r0 # rs)) @ []) = Returns (res, [])"
      by blast
    then have "randomBoard ?b False ns batch (concat (replicate (nat batch) (r0 # rs)) @ []) = Returns (res, [])"
      using n False by (simp add: randomBoard_def ns lookup_def)
    then show ?thesis by blast
  next
    case True
    from fixed_placements_total [OF inv sub] obtain start_l where
      fx: "fixed_placements ?b ns = Inr start_l" by blast
    from free_names_total [OF inv sub] obtain rest' where
      fr: "free_names ?b ns = Inr rest'" by blast
    note sec = fixed_placements_secret [OF inv sub fx]
    note rest' = free_names_filter [OF fr]
    have "first \<in> set (filter ?one ns)" using n True by (simp add: ns)
    then have "filter ?one ns \<noteq> []" by (metis empty_iff empty_set)
    with sec have "start_l \<noteq> []" by auto
    then obtain start_t where su: "set_union start_l = Inr start_t"
      by (cases start_l) (auto simp: set_union_def)
    from set_union_Inr [OF su] have start_t: "start_t = \<Union> (set start_l)" by simp
    have sub': "set rest' \<subseteq> set (names ?b)" unfolding rest' using sub by auto
    from secret_exists [OF inv sub'] obtain ss' where ss': "list_all2 (secret p) rest' ss'" by blast
    have all: "list_all2 (secret p) (filter ?one ns @ rest') (start_l @ ss')"
      using sec ss' by (rule list_all2_appendI)
    have "distinct (filter ?one ns @ rest')" unfolding rest' using d by auto
    from secret_disjoint [OF inv this all] have dj: "disjoint_list ss'" "\<forall>s\<in>set ss'. s \<inter> start_t = {}"
      unfolding sorted_wrt_append start_t by blast+
    from draw_ships_secret [OF inv ss' dj] obtain rs where
      rs: "\<And>tp l. draw_ships ?b rest' l start_t (rs @ tp) = Success (l @ ss') (start_t \<union> \<Union> (set ss')) tp"
      by blast
    have att: "\<exists>l t. attempt ?b (Fixed start_l start_t) rest' (rs @ tp) = Success l t tp" for tp
      using rs [of start_l tp] by (simp add: attempt_def)
    from collect_can_return [of ?b "Fixed start_l start_t" rest' rs, OF att, of "nat batch" "[]" "[]"]
    obtain res where
      "collect ?b (Fixed start_l start_t) rest' (nat batch) [] (concat (replicate (nat batch) rs) @ []) = Returns (res, [])"
      by blast
    then have "randomBoard ?b False ns batch (concat (replicate (nat batch) rs) @ []) = Returns (res, [])"
      using n True fx fr su by (simp add: randomBoard_def ns lookup_def)
    then show ?thesis by blast
  qed
qed

lemma take_turn_can_return:
  assumes inv: "game_inv p" and ms: "mset (name_order p) = mset (names (board p))"
    and ne: "names (board p) \<noteq> []"
  shows "\<exists>tape c p' tape'. take_turn iter p tape = Returns (c, p', tape')"
proof -
  define rb where "rb = (if last_move p = 1
                    then filter (\<lambda>b. b \<inter> misses p = {}) (random_boards p)
                    else filter (\<lambda>b. hits p - b = {}) (random_boards p))"
  define no where "no = sort_key (\<lambda>x. case map_of (possShipsNumDict (board p)) x of
                                     Some n \<Rightarrow> enat n | None \<Rightarrow> \<infinity>) (name_order p)"
  have msno: "mset no = mset (names (board p))" using ms by (simp add: no_def)
  from randomBoard_can_return [OF inv msno ne, of "n_boards p - int (length rb)"] obtain tape results where
    "randomBoard (board p) False no (n_boards p - int (length rb)) tape = Returns (results, [])"
    by blast
  then have "\<exists>p'. generate_random_boards p tape = Returns (p', [])"
    by (simp add: generate_random_boards_def Let_def rb_def no_def)
  then obtain p' where "generate_random_boards p tape = Returns (p', [])" by blast
  then have "take_turn iter p tape = Returns (select_tile iter (hits p') (random_boards p'), p', [])"
    by (simp add: take_turn_def)
  then show ?thesis by blast
qed

lemma init_names_nonempty:
  assumes "BattleshipPlayer_init d ships boards tape = Returns (p, tape')"
  shows "names (board p) \<noteq> []"
proof -
  from assms have "enemy_ships p \<noteq> []"
    by (auto simp: BattleshipPlayer_init_def draw_fleet_def set_union_def
        split: sum.splits run.splits list.splits)
  with game_invD(2) [OF init_inv [OF assms]] show ?thesis by auto
qed

lemma reachable_names_nonempty: "reachable p \<Longrightarrow> names (board p) \<noteq> []"
proof (induction rule: reachable.induct)
  case (reach_init d ships boards tape p tape')
  then show ?case by (rule init_names_nonempty)
next
  case (reach_move p x y p')
  from move_shape [OF reachable_inv [OF reach_move(1)] reach_move(2)] reach_move.IH
  show ?case by simp
next
  case (reach_generate p tape p' tape')
  from generate_random_boards_state [OF reach_generate(2)] reach_generate.IH
  show ?case by auto
next
  case (reach_turn p iter tape c p' tape')
  then obtain "generate_random_boards p tape = Returns (p', tape')"
    by (auto simp: take_turn_def split: run.splits)
  from generate_random_boards_state [OF this] reach_turn.IH show ?case by auto
next
  case (reach_reset p tape p' tape')
  from generateComponentLayouts_fresh [OF game_invD(1) [OF reachable_inv [OF reach_reset(1)]]]
    reach_reset(2) reach_reset.IH
  show ?case by (auto simp: reset_def split: sum.splits run.splits)
qed

lemma one_move_ready:
  assumes rf: "refreshed p" and mv: "p1 = p \<or> update_game_state p x y = Inr p1"
  shows "\<exists>tape c p2 tape'. take_turn iter p1 tape = Returns (c, p2, tape')"
proof -
  from rf have re: "reachable p" by (rule refreshed_reachable)
  with mv have "reachable p1" by (auto intro: reach_move)
  then have ne: "names (board p1) \<noteq> []" by (rule reachable_names_nonempty)
  from one_move_stale [OF reachable_inv [OF re] refreshed_synced [OF rf] mv]
  have "game_inv p1" "mset (name_order p1) = mset (names (board p1))" by blast+
  from take_turn_can_return [OF this ne] show ?thesis .
qed

section \<open>The claims\<close>

text \<open>
  Claim C1, amended. Take a state that was reached with the population refreshed after
  every move (the constructor, then generate_random_boards or take_turn after each
  update_game_state), and make at most one more move. Then take_turn returns for suitable
  random draws (it may retry for ever on others), and whenever it returns, every board of
  the refreshed population contains every hit cell, and the result is: no cell, when no
  board holds a cell that is not hit; otherwise a cell that is not hit, that occurs in the
  population and whose occupancy frequency is maximal among the cells that are not hit.
  This holds for every iteration order of the boards.
\<close>

theorem recommend_max:
  assumes "refreshed p" and "iter_ok iter"
    and "p1 = p \<or> update_game_state p x y = Inr p1"
  shows "(\<exists>tape c p2 tape'. take_turn iter p1 tape = Returns (c, p2, tape')) \<and>
         (\<forall>tape c p2 tape'. take_turn iter p1 tape = Returns (c, p2, tape') \<longrightarrow>
            (\<forall>b\<in>set (random_boards p2). hits p2 \<subseteq> b) \<and>
            (case c of
               None \<Rightarrow> \<forall>b\<in>set (random_boards p2). b \<subseteq> hits p2
             | Some cell \<Rightarrow>
                 cell \<notin> hits p2 \<and> (\<exists>b\<in>set (random_boards p2). cell \<in> b) \<and>
                 (\<forall>c'. c' \<notin> hits p2 \<longrightarrow>
                    freq (random_boards p2) c' \<le> freq (random_boards p2) cell)))"
proof (intro conjI allI impI)
  show "\<exists>tape c p2 tape'. take_turn iter p1 tape = Returns (c, p2, tape')"
    using assms(1,3) by (rule one_move_ready)
next
  fix tape c p2 tape'
  assume run: "take_turn iter p1 tape = Returns (c, p2, tape')"
  note t = take_turn_synced [OF assms(1,3) run]
  note f = synced_finite [OF t(1,2)]
  show "\<forall>b\<in>set (random_boards p2). hits p2 \<subseteq> b" by (rule f(3))
  show "case c of
          None \<Rightarrow> \<forall>b\<in>set (random_boards p2). b \<subseteq> hits p2
        | Some cell \<Rightarrow>
            cell \<notin> hits p2 \<and> (\<exists>b\<in>set (random_boards p2). cell \<in> b) \<and>
            (\<forall>c'. c' \<notin> hits p2 \<longrightarrow> freq (random_boards p2) c' \<le> freq (random_boards p2) cell)"
  proof (cases c)
    case None
    with t(3) have "select_tile iter (hits p2) (random_boards p2) = None" by simp
    with select_tile_None [OF assms(2) f(2) f(1) f(3)] None show ?thesis by simp
  next
    case (Some cell)
    with t(3) have "select_tile iter (hits p2) (random_boards p2) = Some cell" by simp
    from select_tile_Some [OF assms(2) f(2) f(1) f(3) this] Some show ?thesis by simp
  qed
qed

text \<open>
  The statement for a hit at (0, 0) on the 2 x 2 board followed by take_turn: the
  recommended cell (1, 0) occurs in two of the three boards, the cell (0, 1) in one.
\<close>

theorem recommend_max_witness:
  "refreshed (demo_player demo_catalog {} {} [] 0) \<and> iter_ok sorted_list_of_set \<and>
   update_game_state (demo_player demo_catalog {} {} [] 0) 0 0
     = Inr (demo_player [{(0, 0), (1, 0)}, {(0, 0), (0, 1)}] {(0, 0)} {} [] 2) \<and>
   take_turn sorted_list_of_set (demo_player [{(0, 0), (1, 0)}, {(0, 0), (0, 1)}] {(0, 0)} {} [] 2) [0, 1/2, 0]
     = Returns (Some (1, 0),
         demo_player [{(0, 0), (1, 0)}, {(0, 0), (0, 1)}] {(0, 0)} {}
           [{(0, 0), (1, 0)}, {(0, 0), (0, 1)}, {(0, 0), (1, 0)}] 2, []) \<and>
   (1, 0) \<notin> hits (demo_player [{(0, 0), (1, 0)}, {(0, 0), (0, 1)}] {(0, 0)} {}
           [{(0, 0), (1, 0)}, {(0, 0), (0, 1)}, {(0, 0), (1, 0)}] 2) \<and>
   freq (random_boards (demo_player [{(0, 0), (1, 0)}, {(0, 0), (0, 1)}] {(0, 0)} {}
           [{(0, 0), (1, 0)}, {(0, 0), (0, 1)}, {(0, 0), (1, 0)}] 2)) (0, 1)
     \<le> freq (random_boards (demo_player [{(0, 0), (1, 0)}, {(0, 0), (0, 1)}] {(0, 0)} {}
           [{(0, 0), (1, 0)}, {(0, 0), (0, 1)}, {(0, 0), (1, 0)}] 2)) (1, 0)"
proof -
  have nh: "(0, 1) \<notin> hits (demo_player [{(0, 0), (1, 0)}, {(0, 0), (0, 1)}] {(0, 0)} {}
           [{(0, 0), (1, 0)}, {(0, 0), (0, 1)}, {(0, 0), (1, 0)}] 2)"
    by (simp add: demo_player_def)
  from recommend_max [OF demo_refreshed iter_ok_sorted disjI2 [OF demo_hit],
      THEN conjunct2, rule_format, OF demo_turn_after_hit] nh
    demo_refreshed iter_ok_sorted demo_hit demo_turn_after_hit
  show ?thesis by simp
qed

text \<open>
  Claim C1 as stated fails. On the 2 x 2 board with one ship of length 2 and a population
  of 3: take_turn fills the population, then a hit at (0, 0) and a miss at (0, 1) follow
  with no take_turn between them. The next take_turn filters by the miss only, keeps two
  boards that lack the hit cell, and returns (1, 1), which occurs in 2 boards, although
  (1, 0) is not hit and occurs in 3. The counts differ, so the order in which the boards
  are iterated does not matter: the reversed order gives the same cell. And in the game
  with a take_turn after each move, of hits at (0, 0) and (1, 0), the take_turn after the
  last hit (the shell calls it on every run) returns no cell.
\<close>

theorem recommend_counterexample:
  "BattleshipPlayer_init 2 [2] 3 [0] = Returns (demo_player demo_catalog {} {} [] 0, []) \<and>
   take_turn sorted_list_of_set (demo_player demo_catalog {} {} [] 0) [3/4, 3/4, 1/4]
     = Returns (Some (1, 1),
         demo_player demo_catalog {} {} [{(1, 0), (1, 1)}, {(1, 0), (1, 1)}, {(0, 1), (1, 1)}] 0, []) \<and>
   update_game_state
       (demo_player demo_catalog {} {} [{(1, 0), (1, 1)}, {(1, 0), (1, 1)}, {(0, 1), (1, 1)}] 0) 0 0
     = Inr (demo_player [{(0, 0), (1, 0)}, {(0, 0), (0, 1)}] {(0, 0)} {}
              [{(1, 0), (1, 1)}, {(1, 0), (1, 1)}, {(0, 1), (1, 1)}] 2) \<and>
   update_game_state
       (demo_player [{(0, 0), (1, 0)}, {(0, 0), (0, 1)}] {(0, 0)} {}
          [{(1, 0), (1, 1)}, {(1, 0), (1, 1)}, {(0, 1), (1, 1)}] 2) 0 1
     = Inr (demo_player [{(0, 0), (1, 0)}] {(0, 0)} {(0, 1)}
              [{(1, 0), (1, 1)}, {(1, 0), (1, 1)}, {(0, 1), (1, 1)}] 1) \<and>
   take_turn sorted_list_of_set
       (demo_player [{(0, 0), (1, 0)}] {(0, 0)} {(0, 1)}
          [{(1, 0), (1, 1)}, {(1, 0), (1, 1)}, {(0, 1), (1, 1)}] 1) []
     = Returns (Some (1, 1),
         demo_player [{(0, 0), (1, 0)}] {(0, 0)} {(0, 1)}
           [{(1, 0), (1, 1)}, {(1, 0), (1, 1)}, {(0, 0), (1, 0)}] 1, []) \<and>
   take_turn (rev \<circ> sorted_list_of_set)
       (demo_player [{(0, 0), (1, 0)}] {(0, 0)} {(0, 1)}
          [{(1, 0), (1, 1)}, {(1, 0), (1, 1)}, {(0, 1), (1, 1)}] 1) []
     = Returns (Some (1, 1),
         demo_player [{(0, 0), (1, 0)}] {(0, 0)} {(0, 1)}
           [{(1, 0), (1, 1)}, {(1, 0), (1, 1)}, {(0, 0), (1, 0)}] 1, []) \<and>
   (1, 0) \<notin> hits (demo_player [{(0, 0), (1, 0)}] {(0, 0)} {(0, 1)}
           [{(1, 0), (1, 1)}, {(1, 0), (1, 1)}, {(0, 0), (1, 0)}] 1) \<and>
   freq [{(1, 0), (1, 1)}, {(1, 0), (1, 1)}, {(0, 0), (1, 0)}] (1, 1) = 2 \<and>
   freq [{(1, 0), (1, 1)}, {(1, 0), (1, 1)}, {(0, 0), (1, 0)}] (1, 0) = 3 \<and>
   update_game_state (demo_player demo_catalog {} {} [] 0) 0 0
     = Inr (demo_player [{(0, 0), (1, 0)}, {(0, 0), (0, 1)}] {(0, 0)} {} [] 2) \<and>
   take_turn sorted_list_of_set (demo_player [{(0, 0), (1, 0)}, {(0, 0), (0, 1)}] {(0, 0)} {} [] 2) [0, 1/2, 0]
     = Returns (Some (1, 0),
         demo_player [{(0, 0), (1, 0)}, {(0, 0), (0, 1)}] {(0, 0)} {}
           [{(0, 0), (1, 0)}, {(0, 0), (0, 1)}, {(0, 0), (1, 0)}] 2, []) \<and>
   update_game_state
       (demo_player [{(0, 0), (1, 0)}, {(0, 0), (0, 1)}] {(0, 0)} {}
          [{(0, 0), (1, 0)}, {(0, 0), (0, 1)}, {(0, 0), (1, 0)}] 2) 1 0
     = Inr (demo_sunk [{(0, 0), (1, 0)}, {(0, 0), (0, 1)}, {(0, 0), (1, 0)}]) \<and>
   take_turn sorted_list_of_set (demo_sunk [{(0, 0), (1, 0)}, {(0, 0), (0, 1)}, {(0, 0), (1, 0)}]) []
     = Returns (None, demo_sunk [{(0, 0), (1, 0)}, {(0, 0), (1, 0)}, {(0, 0), (1, 0)}], [])"
  by code_simp

text \<open>
  Claim C2. In every reachable state, and so after any sequence of update_game_state
  calls, no candidate placement of any ship contains a miss cell, and for a ship with a
  non-empty confirmed-hit set every candidate meets the confirmed-hit set and the set of
  all hits in exactly \<open>hit_count\<close> cells.
\<close>

theorem candidates_consistent:
  assumes "reachable p" and "name \<in> set (names (board p))"
  shows "\<exists>ps st. lookup (possShipsDict (board p)) name = Inr ps \<and>
           lookup (enemy_ship_statuses p) name = Inr st \<and>
           (\<forall>conf\<in>set ps. conf \<inter> misses p = {} \<and>
              (confirmed_pos st \<noteq> {} \<longrightarrow>
                 int (card (confirmed_pos st \<inter> conf)) = hit_count st \<and>
                 int (card (hits p \<inter> conf)) = hit_count st))"
proof -
  from assms(1) have inv: "game_inv p" by (rule reachable_inv)
  from assms(2) obtain i where i: "i < length (names (board p))" "name = names (board p) ! i"
    by (auto simp: in_set_conv_nth)
  from game_inv_ship [OF inv i(1)] obtain L ps st where s:
    "map_of (possShipsDict (board p)) name = Some ps"
    "map_of (enemy_ship_statuses p) name = Some st"
    "\<forall>conf\<in>set ps. finite conf \<and> card conf = nat L \<and> consistent p st conf"
    unfolding i(2) by (elim ship_okE) blast
  from s(3) have "\<forall>conf\<in>set ps. conf \<inter> misses p = {} \<and>
              (confirmed_pos st \<noteq> {} \<longrightarrow>
                 int (card (confirmed_pos st \<inter> conf)) = hit_count st \<and>
                 int (card (hits p \<inter> conf)) = hit_count st)"
    unfolding consistent_def by blast
  with s(1,2) show ?thesis by auto
qed

text \<open>The statement after a hit at (0, 0) and a miss at (0, 1) on the 2 x 2 board.\<close>

theorem candidates_consistent_witness:
  "reachable (demo_player [{(0, 0), (1, 0)}] {(0, 0)} {(0, 1)} [] 1) \<and>
   CHR ''a'' \<in> set (names (board (demo_player [{(0, 0), (1, 0)}] {(0, 0)} {(0, 1)} [] 1))) \<and>
   (\<exists>ps st. lookup (possShipsDict (board (demo_player [{(0, 0), (1, 0)}] {(0, 0)} {(0, 1)} [] 1))) CHR ''a'' = Inr ps \<and>
           lookup (enemy_ship_statuses (demo_player [{(0, 0), (1, 0)}] {(0, 0)} {(0, 1)} [] 1)) CHR ''a'' = Inr st \<and>
           (\<forall>conf\<in>set ps. conf \<inter> misses (demo_player [{(0, 0), (1, 0)}] {(0, 0)} {(0, 1)} [] 1) = {} \<and>
              (confirmed_pos st \<noteq> {} \<longrightarrow>
                 int (card (confirmed_pos st \<inter> conf)) = hit_count st \<and>
                 int (card (hits (demo_player [{(0, 0), (1, 0)}] {(0, 0)} {(0, 1)} [] 1) \<inter> conf)) = hit_count st)))"
proof -
  have mem: "CHR ''a'' \<in> set (names (board (demo_player [{(0, 0), (1, 0)}] {(0, 0)} {(0, 1)} [] 1)))"
    by simp
  from candidates_consistent [OF demo_reachable(3) mem] demo_reachable(3) mem
  show ?thesis by blast
qed



text \<open>
  Claim C4. For a board of dimension \<open>D\<close> and a ship of length \<open>L\<close> with
  \<open>0 \<le> L \<le> D\<close>, the catalog that the constructor enumerates for that ship has
  exactly \<open>2 * D * (D - L + 1)\<close> entries, the stored count agrees with it, and every
  entry is a run of exactly \<open>L\<close> cells along one coordinate inside the grid. Ships
  are named by the 26 lower-case letters, so the ship is one of the first 26.
\<close>

theorem placement_catalog:
  assumes k: "k < length ships" "k < 26" and L: "0 \<le> ships ! k" "ships ! k \<le> D"
  shows "\<exists>b ps. BattleshipBoard_init D ships = Inr b \<and> k < length (names b) \<and>
           lookup (possShipsDict b) (names b ! k) = Inr ps \<and>
           lookup (possShipsNumDict b) (names b ! k) = Inr (length ps) \<and>
           int (length ps) = 2 * D * (D - ships ! k + 1) \<and>
           (\<forall>e\<in>set ps. is_placement D (ships ! k) e)"
proof -
  let ?nms = "take (length ships) ascii_lowercase"
  from BattleshipBoard_init_fresh [of D ships] obtain b where b:
    "BattleshipBoard_init D ships = Inr b" "fresh_board b" "dim b = D"
    "names b = ?nms" "shipLengths b = zip ?nms ships"
    by blast
  have len: "k < length ?nms" using k by (simp add: ascii_lowercase_def)
  have d: "distinct ?nms" using distinct_ascii_lowercase by (rule distinct_take)
  have Lk: "map_of (shipLengths b) (names b ! k) = Some (ships ! k)"
    unfolding b(4,5) using d len k(1) by (rule map_of_zip_nth_le)
  have "names b ! k \<in> set (names b)" using len unfolding b(4) by (rule nth_mem)
  with b(2) Lk have cat:
    "map_of (possShipsDict b) (names b ! k) = Some (layouts D (ships ! k))"
    "map_of (possShipsNumDict b) (names b ! k) = Some (length (layouts D (ships ! k)))"
    by (auto simp: fresh_board_def b(3) dest!: bspec)
  have "int (length (layouts D (ships ! k))) = 2 * D * (D - ships ! k + 1)"
    using L by (simp add: length_layouts)
  moreover have "\<forall>e\<in>set (layouts D (ships ! k)). is_placement D (ships ! k) e"
    by (simp add: layouts_is_placement)
  ultimately show ?thesis using b(1) cat len b(4) by auto
qed

text \<open>The statement at dimension 3 and the single ship of length 2.\<close>

theorem placement_catalog_witness:
  "(0::nat) < length [2::int] \<and> (0::nat) < 26 \<and> (0::int) \<le> [2] ! 0 \<and> [2::int] ! 0 \<le> 3 \<and>
   (\<exists>b ps. BattleshipBoard_init 3 [2] = Inr b \<and> 0 < length (names b) \<and>
           lookup (possShipsDict b) (names b ! 0) = Inr ps \<and>
           lookup (possShipsNumDict b) (names b ! 0) = Inr (length ps) \<and>
           int (length ps) = 2 * 3 * (3 - [2] ! 0 + 1) \<and>
           (\<forall>e\<in>set ps. is_placement 3 ([2] ! 0) e))"
  using placement_catalog [of 0 "[2]" 3] by simp

text \<open>
  Claim C5. In every reachable state check_all_sunk is true exactly when the cumulative
  hit count equals the sum of the ship lengths. The hit count is the number of hit cells,
  all of them occupied; with ship lengths that are not negative the occupied cells number
  the sum of the lengths, so check_all_sunk is true exactly when every occupied cell is
  hit, and never while one remains unhit.
\<close>

theorem all_sunk_iff:
  assumes "reachable p"
  shows "(check_all_sunk p \<longleftrightarrow> num_hits p = sum_list (map snd (shipLengths (board p)))) \<and>
         num_hits p = int (card (hits p)) \<and> hits p \<subseteq> enemy_board p \<and>
         ((\<forall>L\<in>set (map snd (shipLengths (board p))). 0 \<le> L) \<longrightarrow>
            (check_all_sunk p \<longleftrightarrow> hits p = enemy_board p))"
proof -
  from assms have inv: "game_inv p" by (rule reachable_inv)
  note D = game_invD [OF inv]
  have fin: "finite (enemy_board p)" using inv by (rule game_inv_finite_board)
  have 1: "check_all_sunk p \<longleftrightarrow> num_hits p = sum_list (map snd (shipLengths (board p)))"
    using D(8) by (simp add: check_all_sunk_def)
  have 2: "check_all_sunk p \<longleftrightarrow> hits p = enemy_board p"
    if nonneg: "\<forall>L\<in>set (map snd (shipLengths (board p))). 0 \<le> L"
  proof -
    have "int (card (enemy_board p)) = int (sum_list (map nat (map snd (shipLengths (board p)))))"
      using game_inv_board_card [OF inv] by simp
    also have "\<dots> = sum_list (map snd (shipLengths (board p)))"
      using nonneg by (rule sum_list_nat_int)
    finally have total: "int (card (enemy_board p)) = target_hits p" using D(8) by simp
    have "check_all_sunk p \<longleftrightarrow> card (hits p) = card (enemy_board p)"
      using total [symmetric] D(7) by (simp add: check_all_sunk_def)
    also have "\<dots> \<longleftrightarrow> hits p = enemy_board p"
      using D(5) fin by (auto dest: card_subset_eq)
    finally show ?thesis .
  qed
  from 1 2 D(5,7) show ?thesis by blast
qed

text \<open>The statement after one hit of two on the 2 x 2 board: not yet sunk.\<close>

theorem all_sunk_iff_witness:
  "reachable (demo_player [{(0, 0), (1, 0)}, {(0, 0), (0, 1)}] {(0, 0)} {} [] 2) \<and>
   map snd (shipLengths (board (demo_player [{(0, 0), (1, 0)}, {(0, 0), (0, 1)}] {(0, 0)} {} [] 2))) = [2] \<and>
   \<not> check_all_sunk (demo_player [{(0, 0), (1, 0)}, {(0, 0), (0, 1)}] {(0, 0)} {} [] 2) \<and>
   hits (demo_player [{(0, 0), (1, 0)}, {(0, 0), (0, 1)}] {(0, 0)} {} [] 2)
     \<noteq> enemy_board (demo_player [{(0, 0), (1, 0)}, {(0, 0), (0, 1)}] {(0, 0)} {} [] 2)"
proof -
  have nonneg: "\<forall>L\<in>set (map snd (shipLengths (board (demo_player [{(0, 0), (1, 0)}, {(0, 0), (0, 1)}] {(0, 0)} {} [] 2)))). 0 \<le> L"
    by (simp add: demo_player_def demo_board_def)
  have ne: "hits (demo_player [{(0, 0), (1, 0)}, {(0, 0), (0, 1)}] {(0, 0)} {} [] 2)
     \<noteq> enemy_board (demo_player [{(0, 0), (1, 0)}, {(0, 0), (0, 1)}] {(0, 0)} {} [] 2)"
    by (simp add: demo_player_def)
  have lens: "map snd (shipLengths (board (demo_player [{(0, 0), (1, 0)}, {(0, 0), (0, 1)}] {(0, 0)} {} [] 2))) = [2]"
    by (simp add: demo_player_def demo_board_def)
  from all_sunk_iff [OF demo_reachable(2)] nonneg ne demo_reachable(2) lens
  show ?thesis by blast
qed

text \<open>
  Claim C6, amended. A move at a cell that is already in \<open>hits\<close> or \<open>misses\<close> raises
  nothing and leaves the whole game state as it was. update_game_state returns no
  outcome; the message the shell derives from the unchanged state is the one of a first
  move at that cell, \<open>Hit!\<close> or \<open>Miss!\<close>, unless the game is won.
\<close>

theorem repeated_move_noop:
  assumes "reachable p" and "(x, y) \<in> hits p \<union> misses p"
  shows "update_game_state p x y = Inr p \<and>
         (\<not> check_all_sunk p \<longrightarrow>
            feedback_message p x y = (if (x, y) \<in> hits p then ''Hit!'' else ''Miss!''))"
proof -
  from assms(1) have "game_inv p" by (rule reachable_inv)
  then have "update_game_state p x y = Inr p" using assms(2) by (rule redundant_move)
  then show ?thesis by (simp add: feedback_message_def)
qed

text \<open>The statement for a second move at the hit cell (0, 0) of the 2 x 2 board.\<close>

theorem repeated_move_noop_witness:
  "reachable (demo_player [{(0, 0), (1, 0)}, {(0, 0), (0, 1)}] {(0, 0)} {} [] 2) \<and>
   (0, 0) \<in> hits (demo_player [{(0, 0), (1, 0)}, {(0, 0), (0, 1)}] {(0, 0)} {} [] 2) \<and>
   \<not> check_all_sunk (demo_player [{(0, 0), (1, 0)}, {(0, 0), (0, 1)}] {(0, 0)} {} [] 2) \<and>
   update_game_state (demo_player [{(0, 0), (1, 0)}, {(0, 0), (0, 1)}] {(0, 0)} {} [] 2) 0 0
     = Inr (demo_player [{(0, 0), (1, 0)}, {(0, 0), (0, 1)}] {(0, 0)} {} [] 2) \<and>
   feedback_message (demo_player [{(0, 0), (1, 0)}, {(0, 0), (0, 1)}] {(0, 0)} {} [] 2) 0 0 = ''Hit!''"
proof -
  have tried: "(0, 0) \<in> hits (demo_player [{(0, 0), (1, 0)}, {(0, 0), (0, 1)}] {(0, 0)} {} [] 2)
                \<union> misses (demo_player [{(0, 0), (1, 0)}, {(0, 0), (0, 1)}] {(0, 0)} {} [] 2)"
    by (simp add: demo_player_def)
  have open_game: "\<not> check_all_sunk (demo_player [{(0, 0), (1, 0)}, {(0, 0), (0, 1)}] {(0, 0)} {} [] 2)"
    by (simp add: demo_player_def check_all_sunk_def)
  from repeated_move_noop [OF demo_reachable(2) tried] demo_reachable(2) open_game
  show ?thesis by (simp add: demo_player_def)
qed

text \<open>
  Claim C6 as stated fails: the first move at (0, 0) is a hit and the shell reports
  \<open>Hit!\<close>; the second move at the same cell returns the same state, from which the
  shell reports \<open>Hit!\<close> again. No outcome tells the caller that the cell had been tried.
\<close>

theorem repeated_move_counterexample:
  "update_game_state (demo_player demo_catalog {} {} [] 0) 0 0
     = Inr (demo_player [{(0, 0), (1, 0)}, {(0, 0), (0, 1)}] {(0, 0)} {} [] 2) \<and>
   update_game_state (demo_player [{(0, 0), (1, 0)}, {(0, 0), (0, 1)}] {(0, 0)} {} [] 2) 0 0
     = Inr (demo_player [{(0, 0), (1, 0)}, {(0, 0), (0, 1)}] {(0, 0)} {} [] 2) \<and>
   feedback_message (demo_player [{(0, 0), (1, 0)}, {(0, 0), (0, 1)}] {(0, 0)} {} [] 2) 0 0 = ''Hit!''"
  by code_simp

text \<open>
  Claim C7, amended. Construction validates nothing. The constructor of BattleshipBoard
  succeeds for every dimension and every ship list. The constructor of the engine
  (BattleshipPlayer) raises ValueError for an empty ship list, when randomBoard unpacks
  the empty names. With a named ship longer than the dimension it never returns an
  engine; when that ship is the first one it raises IndexError at the first draw.
\<close>

theorem construction_without_validation:
  "(\<exists>b. BattleshipBoard_init d ships = Inr b) \<and>
   BattleshipPlayer_init d [] boards tape = Raises ValueError \<and>
   (k < length ships \<and> k < 26 \<and> d < ships ! k \<longrightarrow>
      BattleshipPlayer_init d ships boards tape \<noteq> Returns (p, tape')) \<and>
   (ships \<noteq> [] \<and> d < ships ! 0 \<and> tape \<noteq> [] \<longrightarrow>
      BattleshipPlayer_init d ships boards tape = Raises IndexError)"
  using BattleshipBoard_init_fresh [of d ships] init_empty [of d boards tape]
    init_too_long [of k ships d boards tape p tape']
    init_first_too_long [of ships d tape boards]
  by blast

text \<open>The statement for dimension 3 and a single ship of length 5.\<close>

theorem construction_without_validation_witness:
  "(0::nat) < length [5::int] \<and> (0::nat) < 26 \<and> (3::int) < [5] ! 0 \<and> [0::rat] \<noteq> [] \<and>
   (\<exists>b. BattleshipBoard_init 3 [5] = Inr b) \<and>
   BattleshipPlayer_init 3 [] 10 [0] = Raises ValueError \<and>
   BattleshipPlayer_init 3 [5] 10 [0] = Raises IndexError"
  using construction_without_validation [of 3 "[5]" 10 "[0]" 0] by simp

text \<open>
  Claim C7 as stated fails: a board of dimension 3 with a ship of length 5, and a board
  with no ship, are constructed without an error; and the engine for dimension 1 with
  ships of lengths 1, 1 and 2 is still drawing after three attempts, because the two
  ships of length 1 collide before the ship that does not fit is reached.
\<close>

theorem construction_counterexample:
  "BattleshipBoard_init 3 [5]
     = Inr \<lparr>dim = 3, names = ''a'', shipLengths = [(CHR ''a'', 5)],
            possShipsNumDict = [(CHR ''a'', 0)], possShipsDict = [(CHR ''a'', [])]\<rparr> \<and>
   BattleshipBoard_init 10 []
     = Inr \<lparr>dim = 10, names = [], shipLengths = [], possShipsNumDict = [], possShipsDict = []\<rparr> \<and>
   BattleshipPlayer_init 1 [1, 1, 2] 10 [0, 0, 0, 0, 0, 0] = Starved"
  by code_simp

text \<open>
  Claim C8, amended. The sampler has no bound on its attempts and no exhaustion
  condition: on the 2 x 2 board with two ships of length 1, where layouts exist, a random
  source that keeps drawing the first candidate makes every attempt collide, and the
  sampler asks for the next draw however many it has had. Whenever randomBoard returns, it
  returns exactly \<open>batch_size\<close> layouts, never fewer.
\<close>

theorem sampler_unbounded_full_batch:
  "(randomBoard b initial names0 batch_size tape = Returns (results, tape') \<longrightarrow>
      length results = nat batch_size) \<and>
   randomBoard two_ship_board False ''ab'' 1 (replicate n 0) = Starved"
  using randomBoard_length [of b initial names0 batch_size tape results tape'] two_ship_retries [of n]
  by blast

text \<open>A batch of two on the 2 x 2 board with one ship, and twelve draws that all collide.\<close>

theorem sampler_unbounded_full_batch_witness:
  "randomBoard (demo_board demo_catalog) False ''a'' 2 [0, 1/2]
     = Returns ([([{(0, 0), (1, 0)}], {(0, 0), (1, 0)}), ([{(0, 0), (0, 1)}], {(0, 0), (0, 1)})], []) \<and>
   length [([{(0::int, 0::int), (1, 0)}], {(0::int, 0::int), (1, 0)}), ([{(0, 0), (0, 1)}], {(0, 0), (0, 1)})] = nat 2 \<and>
   randomBoard two_ship_board False ''ab'' 1 (replicate 12 0) = Starved"
proof -
  have run: "randomBoard (demo_board demo_catalog) False ''a'' 2 [0, 1/2]
     = Returns ([([{(0, 0), (1, 0)}], {(0, 0), (1, 0)}), ([{(0, 0), (0, 1)}], {(0, 0), (0, 1)})], [])"
    by code_simp
  from sampler_unbounded_full_batch [of "demo_board demo_catalog" False "''a''" 2 "[0, 1/2]"
      "[([{(0, 0), (1, 0)}], {(0, 0), (1, 0)}), ([{(0, 0), (0, 1)}], {(0, 0), (0, 1)})]" "[]" 12] run
  show ?thesis by simp
qed

text \<open>
  Claim C8 as stated fails: on the constructed 2 x 2 board with two ships of length 1,
  six attempts in a row collide and the sampler neither returns nor raises: it asks for
  a seventh.
\<close>

theorem sampler_counterexample:
  "BattleshipBoard_init 2 [1, 1] = Inr two_ship_board \<and>
   randomBoard two_ship_board False ''ab'' 1 [0, 0, 0, 0, 0, 0, 0, 0, 0, 0, 0, 0] = Starved"
  by code_simp

text \<open>
  Claim C9. In every reachable state each ship's secret placement (the ship paired with
  its name in \<open>zip(names, enemy_ships)\<close>) is still in that ship's candidate list, so the
  list is not empty, and the stored count is the length of the list.
\<close>

theorem true_placement_survives:
  assumes "reachable p" and "i < length (names (board p))"
  shows "i < length (enemy_ships p) \<and>
         (\<exists>ps. lookup (possShipsDict (board p)) (names (board p) ! i) = Inr ps \<and>
               lookup (possShipsNumDict (board p)) (names (board p) ! i) = Inr (length ps) \<and>
               enemy_ships p ! i \<in> set ps \<and> ps \<noteq> [])"
proof -
  from assms(1) have inv: "game_inv p" by (rule reachable_inv)
  from game_inv_ship [OF inv assms(2)] obtain ps where
    "map_of (possShipsDict (board p)) (names (board p) ! i) = Some ps"
    "map_of (possShipsNumDict (board p)) (names (board p) ! i) = Some (length ps)"
    "enemy_ships p ! i \<in> set ps"
    by (elim ship_okE) blast
  then show ?thesis using game_invD(2) [OF inv] assms(2) by auto
qed

text \<open>The statement after a hit at (0, 0) and a miss at (0, 1) on the 2 x 2 board.\<close>

theorem true_placement_survives_witness:
  "reachable (demo_player [{(0, 0), (1, 0)}] {(0, 0)} {(0, 1)} [] 1) \<and>
   (\<exists>ps. lookup (possShipsDict (board (demo_player [{(0, 0), (1, 0)}] {(0, 0)} {(0, 1)} [] 1))) CHR ''a'' = Inr ps \<and>
         lookup (possShipsNumDict (board (demo_player [{(0, 0), (1, 0)}] {(0, 0)} {(0, 1)} [] 1))) CHR ''a'' = Inr (length ps) \<and>
         enemy_ships (demo_player [{(0, 0), (1, 0)}] {(0, 0)} {(0, 1)} [] 1) ! 0 \<in> set ps \<and> ps \<noteq> [])"
  using true_placement_survives [OF demo_reachable(3), of 0] demo_reachable(3) by simp

text \<open>
  Claim C10, amended. Take a state that was reached with the population refreshed after
  every move, make at most one more move, and let the population size be at least 1 and
  the cumulative hits be below the sum of the ship lengths. Then take_turn returns for
  suitable random draws (it may retry for ever on others), and whenever it returns, it
  returns a cell, the cell is neither hit nor missed, and no board of the population
  contains a miss cell.
\<close>

theorem recommend_untried:
  assumes "refreshed p" and "iter_ok iter"
    and "p1 = p \<or> update_game_state p x y = Inr p1"
    and "1 \<le> n_boards p1" and "num_hits p1 < target_hits p1"
  shows "(\<exists>tape c p2 tape'. take_turn iter p1 tape = Returns (c, p2, tape')) \<and>
         (\<forall>tape c p2 tape'. take_turn iter p1 tape = Returns (c, p2, tape') \<longrightarrow>
            (\<exists>cell. c = Some cell \<and> cell \<notin> hits p2 \<and> cell \<notin> misses p2) \<and>
            (\<forall>b\<in>set (random_boards p2). b \<inter> misses p2 = {}))"
proof (intro conjI allI impI)
  show "\<exists>tape c p2 tape'. take_turn iter p1 tape = Returns (c, p2, tape')"
    using assms(1,3) by (rule one_move_ready)
next
  fix tape c p2 tape'
  assume run: "take_turn iter p1 tape = Returns (c, p2, tape')"
  note t = take_turn_synced [OF assms(1,3) run]
  note f = synced_finite [OF t(1,2)]
  note D = game_invD [OF t(1)]
  show miss: "\<forall>b\<in>set (random_boards p2). b \<inter> misses p2 = {}"
    using t(2) by (simp add: synced_def board_ok_def)
  from t(6) assms(4) obtain b0 where b0: "b0 \<in> set (random_boards p2)"
    by (cases "random_boards p2") auto
  with t(2) have c0: "card b0 = card (enemy_board p2)" "finite b0"
    by (simp_all add: synced_def board_ok_def)
  have "int (card (hits p2)) < target_hits p2"
    using assms(5) D(7) t(9,10) by simp
  also have "\<dots> \<le> int (card (enemy_board p2))"
    using D(8) sum_list_le_nat [of "shipLengths (board p2)"] game_inv_board_card [OF t(1)] by simp
  finally have "card (hits p2) < card b0" using c0(1) by simp
  then have "\<not> b0 \<subseteq> hits p2" using f(1) by (auto dest: card_mono)
  with b0 have "\<not> (\<forall>b\<in>set (random_boards p2). b \<subseteq> hits p2)" by blast
  with select_tile_None [OF assms(2) f(2) f(1) f(3)] t(3) obtain cell where cell: "c = Some cell"
    by (cases c) auto
  with t(3) have "select_tile iter (hits p2) (random_boards p2) = Some cell" by simp
  from select_tile_Some [OF assms(2) f(2) f(1) f(3) this] obtain b where
    "cell \<notin> hits p2" "b \<in> set (random_boards p2)" "cell \<in> b" by blast
  with miss cell show "\<exists>cell. c = Some cell \<and> cell \<notin> hits p2 \<and> cell \<notin> misses p2" by blast
qed

text \<open>The same hit followed by take_turn: the recommended cell (1, 0) is untried.\<close>

theorem recommend_untried_witness:
  "refreshed (demo_player demo_catalog {} {} [] 0) \<and> iter_ok sorted_list_of_set \<and>
   update_game_state (demo_player demo_catalog {} {} [] 0) 0 0
     = Inr (demo_player [{(0, 0), (1, 0)}, {(0, 0), (0, 1)}] {(0, 0)} {} [] 2) \<and>
   take_turn sorted_list_of_set (demo_player [{(0, 0), (1, 0)}, {(0, 0), (0, 1)}] {(0, 0)} {} [] 2) [0, 1/2, 0]
     = Returns (Some (1, 0),
         demo_player [{(0, 0), (1, 0)}, {(0, 0), (0, 1)}] {(0, 0)} {}
           [{(0, 0), (1, 0)}, {(0, 0), (0, 1)}, {(0, 0), (1, 0)}] 2, []) \<and>
   1 \<le> n_boards (demo_player [{(0, 0), (1, 0)}, {(0, 0), (0, 1)}] {(0, 0)} {} [] 2) \<and>
   num_hits (demo_player [{(0, 0), (1, 0)}, {(0, 0), (0, 1)}] {(0, 0)} {} [] 2)
     < target_hits (demo_player [{(0, 0), (1, 0)}, {(0, 0), (0, 1)}] {(0, 0)} {} [] 2) \<and>
   (1, 0) \<notin> hits (demo_player [{(0, 0), (1, 0)}, {(0, 0), (0, 1)}] {(0, 0)} {}
           [{(0, 0), (1, 0)}, {(0, 0), (0, 1)}, {(0, 0), (1, 0)}] 2) \<and>
   (1, 0) \<notin> misses (demo_player [{(0, 0), (1, 0)}, {(0, 0), (0, 1)}] {(0, 0)} {}
           [{(0, 0), (1, 0)}, {(0, 0), (0, 1)}, {(0, 0), (1, 0)}] 2)"
proof -
  have n: "1 \<le> n_boards (demo_player [{(0, 0), (1, 0)}, {(0, 0), (0, 1)}] {(0, 0)} {} [] 2)"
    and h: "num_hits (demo_player [{(0, 0), (1, 0)}, {(0, 0), (0, 1)}] {(0, 0)} {} [] 2)
     < target_hits (demo_player [{(0, 0), (1, 0)}, {(0, 0), (0, 1)}] {(0, 0)} {} [] 2)"
    by (simp_all add: demo_player_def)
  from recommend_untried [OF demo_refreshed iter_ok_sorted disjI2 [OF demo_hit] n h,
      THEN conjunct2, rule_format, OF demo_turn_after_hit]
    demo_refreshed iter_ok_sorted demo_hit demo_turn_after_hit n h
  show ?thesis by simp
qed

text \<open>
  Claim C10 as stated fails. On the 2 x 2 board with one ship of length 2:
  generate_random_boards, which the shell calls at the start, fills the population with
  three boards {(0, 0), (0, 1)}, then a miss at (0, 1) and a hit at (0, 0) follow with no
  take_turn between them. The next take_turn filters by the hits
  only, keeps the three boards, which contain the miss cell, and returns (0, 1), a miss
  cell, while one hit of two is made; either iteration order gives that cell. And with a
  population size of 0 take_turn returns no cell.
\<close>

theorem recommend_untried_counterexample:
  "BattleshipPlayer_init 2 [2] 3 [0] = Returns (demo_player demo_catalog {} {} [] 0, []) \<and>
   generate_random_boards (demo_player demo_catalog {} {} [] 0) [1/2, 1/2, 1/2]
     = Returns (demo_player demo_catalog {} {} [{(0, 0), (0, 1)}, {(0, 0), (0, 1)}, {(0, 0), (0, 1)}] 0, []) \<and>
   update_game_state
       (demo_player demo_catalog {} {} [{(0, 0), (0, 1)}, {(0, 0), (0, 1)}, {(0, 0), (0, 1)}] 0) 0 1
     = Inr (demo_player [{(0, 0), (1, 0)}, {(1, 0), (1, 1)}] {} {(0, 1)}
              [{(0, 0), (0, 1)}, {(0, 0), (0, 1)}, {(0, 0), (0, 1)}] 1) \<and>
   update_game_state
       (demo_player [{(0, 0), (1, 0)}, {(1, 0), (1, 1)}] {} {(0, 1)}
          [{(0, 0), (0, 1)}, {(0, 0), (0, 1)}, {(0, 0), (0, 1)}] 1) 0 0
     = Inr (demo_player [{(0, 0), (1, 0)}] {(0, 0)} {(0, 1)}
              [{(0, 0), (0, 1)}, {(0, 0), (0, 1)}, {(0, 0), (0, 1)}] 2) \<and>
   take_turn sorted_list_of_set
       (demo_player [{(0, 0), (1, 0)}] {(0, 0)} {(0, 1)}
          [{(0, 0), (0, 1)}, {(0, 0), (0, 1)}, {(0, 0), (0, 1)}] 2) []
     = Returns (Some (0, 1),
         demo_player [{(0, 0), (1, 0)}] {(0, 0)} {(0, 1)}
           [{(0, 0), (0, 1)}, {(0, 0), (0, 1)}, {(0, 0), (0, 1)}] 2, []) \<and>
   take_turn (rev \<circ> sorted_list_of_set)
       (demo_player [{(0, 0), (1, 0)}] {(0, 0)} {(0, 1)}
          [{(0, 0), (0, 1)}, {(0, 0), (0, 1)}, {(0, 0), (0, 1)}] 2) []
     = Returns (Some (0, 1),
         demo_player [{(0, 0), (1, 0)}] {(0, 0)} {(0, 1)}
           [{(0, 0), (0, 1)}, {(0, 0), (0, 1)}, {(0, 0), (0, 1)}] 2, []) \<and>
   (0, 1) \<in> misses (demo_player [{(0, 0), (1, 0)}] {(0, 0)} {(0, 1)}
           [{(0, 0), (0, 1)}, {(0, 0), (0, 1)}, {(0, 0), (0, 1)}] 2) \<and>
   num_hits (demo_player [{(0, 0), (1, 0)}] {(0, 0)} {(0, 1)}
           [{(0, 0), (0, 1)}, {(0, 0), (0, 1)}, {(0, 0), (0, 1)}] 2)
     < target_hits (demo_player [{(0, 0), (1, 0)}] {(0, 0)} {(0, 1)}
           [{(0, 0), (0, 1)}, {(0, 0), (0, 1)}, {(0, 0), (0, 1)}] 2) \<and>
   BattleshipPlayer_init 2 [2] 0 [0] = Returns ((demo_player demo_catalog {} {} [] 0)\<lparr>n_boards := 0\<rparr>, []) \<and>
   take_turn sorted_list_of_set ((demo_player demo_catalog {} {} [] 0)\<lparr>n_boards := 0\<rparr>) []
     = Returns (None, (demo_player demo_catalog {} {} [] 0)\<lparr>n_boards := 0\<rparr>, [])"
  by code_simp

end
